theory Spec2Isabelle
  imports Main "HOL-Library.Sublist"
begin

section \<open>The streaming message parser of bolt.diy\<close>

text \<open>
  A shallow embedding of \<^verbatim>\<open>StreamingMessageParser\<close> (the message parser module, with
  the action types it builds). Texts are lists of 8-bit characters; an absent value
  (\<^verbatim>\<open>undefined\<close>, or the \<^verbatim>\<open>-1\<close> of \<^verbatim>\<open>indexOf\<close>) is \<open>None\<close>; a thrown
  exception is the \<open>Inl\<close> of a sum; the callbacks a call fires are returned as a list,
  in the order they fire, as if every callback were registered. Calls of the logger and
  of the console have no effect on the parser and are left out.
\<close>

subsection \<open>String primitives of the runtime\<close>

definition startsWith :: "string \<Rightarrow> string \<Rightarrow> nat \<Rightarrow> bool" where
  "startsWith input pat i = prefix pat (drop i input)"

definition endsWith :: "string \<Rightarrow> string \<Rightarrow> bool" where
  "endsWith s pat = suffix pat s"

text \<open>\<open>indexOf0 pat s\<close>: the first offset of \<open>s\<close> at which \<open>pat\<close> occurs.\<close>

fun indexOf0 :: "string \<Rightarrow> string \<Rightarrow> nat option" where
  "indexOf0 pat [] = (if pat = [] then Some 0 else None)"
| "indexOf0 pat (c # cs) =
     (if prefix pat (c # cs) then Some 0 else map_option Suc (indexOf0 pat cs))"

definition indexOf :: "string \<Rightarrow> string \<Rightarrow> nat \<Rightarrow> nat option" where
  "indexOf input pat i =
     (let k = min i (length input) in map_option (\<lambda>d. k + d) (indexOf0 pat (drop k input)))"

definition slice :: "string \<Rightarrow> nat \<Rightarrow> nat \<Rightarrow> string" where
  "slice input a b = take (b - a) (drop a input)"

definition sliceFrom :: "string \<Rightarrow> nat \<Rightarrow> string" where
  "sliceFrom input a = drop a input"

definition charAt :: "string \<Rightarrow> nat \<Rightarrow> char option" where
  "charAt input i = (if i < length input then Some (input ! i) else None)"

text \<open>White space of \<^verbatim>\<open>trim\<close> and of the regular expression class \<^verbatim>\<open>\s\<close>, among 8-bit
  characters: tab, line feed, vertical tab, form feed, carriage return, space, no-break space.\<close>

definition is_space :: "char \<Rightarrow> bool" where
  "is_space c = (c \<in> set [CHR 0x09, CHR 0x0A, CHR 0x0B, CHR 0x0C, CHR 0x0D, CHR 0x20, CHR 0xA0])"

text \<open>The class \<^verbatim>\<open>\w\<close>.\<close>

definition is_word :: "char \<Rightarrow> bool" where
  "is_word c = (c \<in> set ''abcdefghijklmnopqrstuvwxyzABCDEFGHIJKLMNOPQRSTUVWXYZ0123456789_'')"

definition trim :: "string \<Rightarrow> string" where
  "trim s = rev (dropWhile is_space (rev (dropWhile is_space s)))"

definition strip_prefix :: "string \<Rightarrow> string \<Rightarrow> string option" where
  "strip_prefix pat s = (if prefix pat s then Some (drop (length pat) s) else None)"

text \<open>\<^verbatim>\<open>s.replace(/pat/g, rep)\<close> for a literal, non-empty pattern.\<close>

fun replaceAll :: "string \<Rightarrow> string \<Rightarrow> string \<Rightarrow> string" where
  "replaceAll pat rep [] = []"
| "replaceAll pat rep (c # cs) =
     (if prefix pat (c # cs) then rep @ replaceAll pat rep (drop (length pat - 1) cs)
      else c # replaceAll pat rep cs)"

text \<open>\<^verbatim>\<open>String(n)\<close> for an integral number.\<close>

fun decimal :: "nat \<Rightarrow> string" where
  "decimal n =
     (if n < 10 then [''0123456789'' ! n]
      else decimal (n div 10) @ [''0123456789'' ! (n mod 10)])"

declare decimal.simps [simp del]

definition String :: "int \<Rightarrow> string" where
  "String n = (if n < 0 then CHR ''-'' # decimal (nat (- n)) else decimal (nat n))"

text \<open>Case folding of the \<^verbatim>\<open>i\<close> flag, against a pattern of ASCII letters: only the ASCII
  letters fold, and no character outside ASCII folds to one of them.\<close>

definition ascii_upper :: "char \<Rightarrow> char" where
  "ascii_upper c =
     (case map_of (zip ''abcdefghijklmnopqrstuvwxyz'' ''ABCDEFGHIJKLMNOPQRSTUVWXYZ'') c of
        Some u \<Rightarrow> u | None \<Rightarrow> c)"

definition ascii_lower :: "char \<Rightarrow> char" where
  "ascii_lower c =
     (case map_of (zip ''ABCDEFGHIJKLMNOPQRSTUVWXYZ'' ''abcdefghijklmnopqrstuvwxyz'') c of
        Some l \<Rightarrow> l | None \<Rightarrow> c)"

fun ci_strip :: "string \<Rightarrow> string \<Rightarrow> string option" where
  "ci_strip [] s = Some s"
| "ci_strip (p # ps) [] = None"
| "ci_strip (p # ps) (c # cs) =
     (if ascii_upper p = ascii_upper c then ci_strip ps cs else None)"

subsection \<open>\<^verbatim>\<open>JSON.parse\<close> and \<^verbatim>\<open>JSON.stringify\<close>\<close>

text \<open>
  The runtime's \<^verbatim>\<open>JSON.parse\<close>, as a recursive-descent parser of the JSON grammar. A number
  is kept as the text of its token (its floating-point value is not modelled), a string as
  its UTF-16 code units. \<open>None\<close> is the \<^verbatim>\<open>SyntaxError\<close>. The fuel bounds the chain of
  nested calls; every call but that of a first array element or member follows a consumed
  character, so twice the length of the text is enough.
\<close>

datatype json =
  JNull
  | JBool bool
  | JNumber string
  | JString "nat list"
  | JArray "json list"
  | JObject "(nat list \<times> json) list"

definition json_ws :: "char \<Rightarrow> bool" where
  "json_ws c = (c \<in> set [CHR 0x20, CHR 0x09, CHR 0x0A, CHR 0x0D])"

definition is_digit :: "char \<Rightarrow> bool" where
  "is_digit c = (c \<in> set ''0123456789'')"

definition hex_val :: "char \<Rightarrow> nat option" where
  "hex_val c =
     map_of (zip ''0123456789abcdefABCDEF''
       [0, 1, 2, 3, 4, 5, 6, 7, 8, 9, 10, 11, 12, 13, 14, 15, 10, 11, 12, 13, 14, 15]) c"

definition json_number :: "string \<Rightarrow> (string \<times> string) option" where
  "json_number s =
     (let sgn = (if prefix ''-'' s then ''-'' else '''');
          s1 = drop (length sgn) s;
          ip = (if prefix ''0'' s1 then ''0'' else takeWhile is_digit s1);
          s2 = drop (length ip) s1;
          fr = (case s2 of
                  c # t \<Rightarrow> if c = CHR ''.'' \<and> takeWhile is_digit t \<noteq> []
                           then c # takeWhile is_digit t else []
                | [] \<Rightarrow> []);
          s3 = drop (length fr) s2;
          ex = (case s3 of
                  c # t \<Rightarrow>
                    if c = CHR ''e'' \<or> c = CHR ''E'' then
                      (let sg = (if prefix ''+'' t then ''+'' else if prefix ''-'' t then ''-'' else '''');
                           ds = takeWhile is_digit (drop (length sg) t)
                       in if ds = [] then [] else c # sg @ ds)
                    else []
                | [] \<Rightarrow> [])
      in if ip = [] then None else Some (sgn @ ip @ fr @ ex, drop (length ex) s3))"

text \<open>The characters of a string literal after its opening quote, up to the closing one.\<close>

fun json_chars :: "string \<Rightarrow> (nat list \<times> string) option" where
  "json_chars [] = None"
| "json_chars (c # cs) =
     (if c = CHR 0x22 then Some ([], cs)
      else if c = CHR 0x5C then
        (case cs of
           [] \<Rightarrow> None
         | e # es \<Rightarrow>
             (case map_of (zip [CHR 0x22, CHR 0x5C, CHR ''/'', CHR ''b'', CHR ''f'', CHR ''n'', CHR ''r'', CHR ''t'']
                               [0x22, 0x5C, 0x2F, 0x08, 0x0C, 0x0A, 0x0D, 0x09 :: nat]) e of
                Some u \<Rightarrow> map_option (\<lambda>(us, r). (u # us, r)) (json_chars es)
              | None \<Rightarrow>
                  (case es of
                     h1 # h2 # h3 # h4 # r \<Rightarrow>
                       (case (hex_val h1, hex_val h2, hex_val h3, hex_val h4) of
                          (Some a, Some b, Some c', Some d) \<Rightarrow>
                            if e = CHR ''u''
                            then map_option (\<lambda>(us, r'). ((((a * 16 + b) * 16 + c') * 16 + d) # us, r'))
                                   (json_chars r)
                            else None
                        | _ \<Rightarrow> None)
                   | _ \<Rightarrow> None)))
      else if of_char c < (0x20 :: nat) then None
      else map_option (\<lambda>(us, r). (of_char c # us, r)) (json_chars cs))"

fun json_value :: "nat \<Rightarrow> string \<Rightarrow> (json \<times> string) option"
  and json_elements :: "nat \<Rightarrow> string \<Rightarrow> (json list \<times> string) option"
  and json_members :: "nat \<Rightarrow> string \<Rightarrow> ((nat list \<times> json) list \<times> string) option"
where
  "json_value 0 s = None"
| "json_value (Suc n) s =
     (let t = dropWhile json_ws s in
      if prefix ''null'' t then Some (JNull, drop 4 t)
      else if prefix ''true'' t then Some (JBool True, drop 4 t)
      else if prefix ''false'' t then Some (JBool False, drop 5 t)
      else if prefix ''\"'' t then map_option (\<lambda>(us, r). (JString us, r)) (json_chars (drop 1 t))
      else if prefix ''['' t then
        (let u = dropWhile json_ws (drop 1 t) in
         if prefix '']'' u then Some (JArray [], drop 1 u)
         else map_option (\<lambda>(vs, r). (JArray vs, r)) (json_elements n u))
      else if prefix ''{'' t then
        (let u = dropWhile json_ws (drop 1 t) in
         if prefix ''}'' u then Some (JObject [], drop 1 u)
         else map_option (\<lambda>(ms, r). (JObject ms, r)) (json_members n u))
      else map_option (\<lambda>(txt, r). (JNumber txt, r)) (json_number t))"
| "json_elements 0 s = None"
| "json_elements (Suc n) s =
     (case json_value n s of
        None \<Rightarrow> None
      | Some (v, r) \<Rightarrow>
          (let t = dropWhile json_ws r in
           if prefix '','' t then map_option (\<lambda>(vs, r'). (v # vs, r')) (json_elements n (drop 1 t))
           else if prefix '']'' t then Some ([v], drop 1 t)
           else None))"
| "json_members 0 s = None"
| "json_members (Suc n) s =
     (let t = dropWhile json_ws s in
      if prefix ''\"'' t then
        (case json_chars (drop 1 t) of
           None \<Rightarrow> None
         | Some (k, r) \<Rightarrow>
             (let u = dropWhile json_ws r in
              if prefix '':'' u then
                (case json_value n (drop 1 u) of
                   None \<Rightarrow> None
                 | Some (v, r') \<Rightarrow>
                     (let w = dropWhile json_ws r' in
                      if prefix '','' w
                      then map_option (\<lambda>(ms, r''). ((k, v) # ms, r'')) (json_members n (drop 1 w))
                      else if prefix ''}'' w then Some ([(k, v)], drop 1 w)
                      else None))
              else None))
      else None)"

definition JSON_parse :: "string \<Rightarrow> json option" where
  "JSON_parse s =
     (case json_value (2 * length s + 2) s of
        None \<Rightarrow> None
      | Some (v, r) \<Rightarrow> if dropWhile json_ws r = [] then Some v else None)"

text \<open>\<^verbatim>\<open>JSON.stringify\<close> of a string: quoted, with the quote, the backslash and the control
  characters escaped.\<close>

definition hex_digit :: "nat \<Rightarrow> char" where
  "hex_digit n = ''0123456789abcdef'' ! (n mod 16)"

definition json_escape :: "char \<Rightarrow> string" where
  "json_escape c =
     (case map_of (zip [CHR 0x22, CHR 0x5C, CHR 0x08, CHR 0x0C, CHR 0x0A, CHR 0x0D, CHR 0x09]
                       [[CHR 0x5C, CHR 0x22], [CHR 0x5C, CHR 0x5C], [CHR 0x5C, CHR ''b''],
                        [CHR 0x5C, CHR ''f''], [CHR 0x5C, CHR ''n''], [CHR 0x5C, CHR ''r''],
                        [CHR 0x5C, CHR ''t'']]) c of
        Some e \<Rightarrow> e
      | None \<Rightarrow>
          if of_char c < (0x20 :: nat)
          then [CHR 0x5C, CHR ''u'', CHR ''0'', CHR ''0'',
                hex_digit (of_char c div 16), hex_digit (of_char c)]
          else [c])"

definition JSON_stringify :: "string \<Rightarrow> string" where
  "JSON_stringify s = CHR 0x22 # concat (map json_escape s) @ [CHR 0x22]"

subsection \<open>Actions, artifacts and the state of a message\<close>

text \<open>An action is the object the parser fills in: \<open>content\<close>, the \<open>type\<close> attribute, and
  the fields of the variant the type selects. A field that was never assigned, or was assigned
  \<^verbatim>\<open>undefined\<close>, is \<open>None\<close>.\<close>

record BoltActionData =
  content :: string
  type :: "string option"
  operation :: "string option"
  filePath :: "string option"
  screenId :: "string option"
  screenName :: "string option"
  screenType :: "string option"
  parentScreen :: "string option"
  navigationTrigger :: "string option"
  dependencies :: "string list option"
  props :: "json option"
  fromScreen :: "string option"
  toScreen :: "string option"
  trigger :: "string option"
  navigationType :: "string option"
  params :: "json option"
  componentName :: "string option"
  componentType :: "string option"
  usedByScreens :: "string list option"
  exports :: "string list option"
  imports' :: "string list option"

text \<open>The object \<^verbatim>\<open>{ content: '' }\<close>.\<close>

definition emptyAction :: BoltActionData where
  "emptyAction =
     \<lparr>content = [], type = None, operation = None, filePath = None, screenId = None,
      screenName = None, screenType = None, parentScreen = None, navigationTrigger = None,
      dependencies = None, props = None, fromScreen = None, toScreen = None, trigger = None,
      navigationType = None, params = None, componentName = None, componentType = None,
      usedByScreens = None, exports = None, imports' = None\<rparr>"

record BoltArtifactData =
  artifact_id :: "string option"
  artifact_title :: "string option"
  artifact_type :: "string option"

record MessageState =
  position :: nat
  insideArtifact :: bool
  insideAction :: bool
  currentArtifact :: "BoltArtifactData option"
  currentAction :: BoltActionData
  actionId :: int

record ActionCallbackData =
  artifactId :: "string option"
  messageId :: string
  actionId' :: string
  action :: BoltActionData

text \<open>A callback invocation; the artifact callbacks receive the message id and the artifact.\<close>

datatype callback =
  onArtifactOpen string BoltArtifactData
  | onArtifactClose string BoltArtifactData
  | onActionOpen ActionCallbackData
  | onActionStream ActionCallbackData
  | onActionClose ActionCallbackData

text \<open>What is thrown: an \<^verbatim>\<open>Error\<close> with its message, the \<^verbatim>\<open>TypeError\<close> of a method call on
  \<^verbatim>\<open>undefined\<close>, or the failure of \<^verbatim>\<open>unreachable\<close>. The helper \<^verbatim>\<open>unreachable\<close> is imported
  from a module that is not among the sources; the code after its call relies on it not
  returning, so it is taken to throw, with its message.\<close>

datatype error = Error string | TypeError | Unreachable string

definition ARTIFACT_TAG_OPEN :: string where "ARTIFACT_TAG_OPEN = ''<boltArtifact''"
definition ARTIFACT_TAG_CLOSE :: string where "ARTIFACT_TAG_CLOSE = ''</boltArtifact>''"
definition ARTIFACT_ACTION_TAG_OPEN :: string where "ARTIFACT_ACTION_TAG_OPEN = ''<boltAction''"
definition ARTIFACT_ACTION_TAG_CLOSE :: string where "ARTIFACT_ACTION_TAG_CLOSE = ''</boltAction>''"
definition BOLT_QUICK_ACTIONS_OPEN :: string where "BOLT_QUICK_ACTIONS_OPEN = ''<bolt-quick-actions>''"
definition BOLT_QUICK_ACTIONS_CLOSE :: string where "BOLT_QUICK_ACTIONS_CLOSE = ''</bolt-quick-actions>''"

subsection \<open>Content clean-up\<close>

text \<open>\<open>fence_end s\<close>: \<open>s\<close> matches \<^verbatim>\<open>\n\s*```\s*$\<close>.\<close>

definition fence_end :: "string \<Rightarrow> bool" where
  "fence_end s =
     (case s of
        [] \<Rightarrow> False
      | c # t \<Rightarrow>
          c = CHR 0x0A \<and>
          (case strip_prefix ''```'' (dropWhile is_space t) of
             Some u \<Rightarrow> list_all is_space u
           | None \<Rightarrow> False))"

text \<open>The lazy group \<^verbatim>\<open>([\s\S]*?)\<close>: the shortest text after which the closing fence matches.\<close>

fun lazy_body :: "string \<Rightarrow> string option" where
  "lazy_body [] = None"
| "lazy_body (c # cs) =
     (if fence_end (c # cs) then Some [] else map_option ((#) c) (lazy_body cs))"

text \<open>The match of \<^verbatim>\<open>/^\s*```\w*\n([\s\S]*?)\n\s*```\s*$/\<close>.\<close>

definition cleanoutMarkdownSyntax :: "string \<Rightarrow> string" where
  "cleanoutMarkdownSyntax cnt =
     (case strip_prefix ''```'' (dropWhile is_space cnt) of
        None \<Rightarrow> cnt
      | Some s2 \<Rightarrow>
          (case dropWhile is_word s2 of
             [] \<Rightarrow> cnt
           | c # rest \<Rightarrow>
               if c = CHR 0x0A
               then (case lazy_body rest of Some b \<Rightarrow> b | None \<Rightarrow> cnt)
               else cnt))"

definition cleanEscapedTags :: "string \<Rightarrow> string" where
  "cleanEscapedTags cnt = replaceAll ''&gt;'' ''>'' (replaceAll ''&lt;'' ''<'' cnt)"

subsection \<open>Attributes and the action tag\<close>

text \<open>The first match of \<^verbatim>\<open>name="([^"]*)"\<close>, case-insensitive: the leftmost place where the
  name, \<^verbatim>\<open>="\<close> and a later quote are found; the value runs to that quote.\<close>

fun extractAttribute :: "string \<Rightarrow> string \<Rightarrow> string option" where
  "extractAttribute [] attributeName = None"
| "extractAttribute (c # cs) attributeName =
     (case ci_strip (attributeName @ ''=\"'') (c # cs) of
        Some rest \<Rightarrow>
          if CHR 0x22 \<in> set rest then Some (takeWhile (\<lambda>x. x \<noteq> CHR 0x22) rest)
          else extractAttribute cs attributeName
      | None \<Rightarrow> extractAttribute cs attributeName)"

text \<open>\<^verbatim>\<open>!x\<close> for a string that may be undefined.\<close>

definition falsy :: "string option \<Rightarrow> bool" where
  "falsy x = (x = None \<or> x = Some [])"

fun split_on :: "char \<Rightarrow> string \<Rightarrow> string list" where
  "split_on d [] = [[]]"
| "split_on d (c # cs) =
     (if c = d then [] # split_on d cs
      else (case split_on d cs of x # xs \<Rightarrow> (c # x) # xs | [] \<Rightarrow> [[c]]))"

text \<open>\<^verbatim>\<open>x.split(',').map((d) => d.trim())\<close>, done when \<open>x\<close> is truthy.\<close>

definition comma_list :: "string option \<Rightarrow> string list option" where
  "comma_list x = (case x of None \<Rightarrow> None | Some v \<Rightarrow> if v = [] then None else Some (map trim (split_on CHR '','' v)))"

text \<open>\<^verbatim>\<open>JSON.parse\<close> of a truthy attribute inside \<^verbatim>\<open>try\<close>: a syntax error leaves the field unset.\<close>

definition json_field :: "string option \<Rightarrow> json option" where
  "json_field x = (case x of None \<Rightarrow> None | Some v \<Rightarrow> if v = [] then None else JSON_parse v)"

definition undefined_or :: "string option \<Rightarrow> string" where
  "undefined_or x = (case x of None \<Rightarrow> ''undefined'' | Some v \<Rightarrow> v)"

definition parseActionTag :: "string \<Rightarrow> nat \<Rightarrow> nat \<Rightarrow> error + BoltActionData" where
  "parseActionTag input actionOpenIndex actionEndIndex =
     (let actionTag = slice input actionOpenIndex (actionEndIndex + 1);
          actionType = extractAttribute actionTag ''type'';
          actionAttributes = emptyAction\<lparr>type := actionType\<rparr>
      in
      if actionType = Some ''supabase'' then
        (let operation' = extractAttribute actionTag ''operation'' in
         if falsy operation' \<or> undefined_or operation' \<notin> set [''migration'', ''query'']
         then Inl (Error (''Invalid Supabase operation: '' @ undefined_or operation'))
         else if operation' = Some ''migration'' then
           (let filePath' = extractAttribute actionTag ''filePath'' in
            if falsy filePath' then Inl (Error ''Migration requires a filePath'')
            else Inr (actionAttributes\<lparr>operation := operation', filePath := filePath'\<rparr>))
         else Inr (actionAttributes\<lparr>operation := operation'\<rparr>))
      else if actionType = Some ''file'' then
        Inr (actionAttributes\<lparr>filePath := extractAttribute actionTag ''filePath''\<rparr>)
      else if actionType = Some ''screen'' then
        (let screenId' = extractAttribute actionTag ''screenId'';
             screenName' = extractAttribute actionTag ''screenName'';
             screenType' = extractAttribute actionTag ''screenType'';
             parentScreen' = extractAttribute actionTag ''parentScreen'';
             navigationTrigger' = extractAttribute actionTag ''navigationTrigger''
         in
         if falsy screenId' \<or> falsy screenName' \<or> falsy screenType'
         then Inl (Error ''Screen action requires screenId, screenName, and screenType'')
         else Inr (actionAttributes
                \<lparr>screenId := screenId', screenName := screenName', screenType := screenType',
                 parentScreen := parentScreen', navigationTrigger := navigationTrigger',
                 dependencies := comma_list (extractAttribute actionTag ''dependencies''),
                 props := json_field (extractAttribute actionTag ''props'')\<rparr>))
      else if actionType = Some ''navigation'' then
        (let fromScreen' = extractAttribute actionTag ''fromScreen'';
             toScreen' = extractAttribute actionTag ''toScreen'';
             trigger' = extractAttribute actionTag ''trigger'';
             navigationType' = extractAttribute actionTag ''navigationType''
         in
         if falsy fromScreen' \<or> falsy toScreen' \<or> falsy trigger' \<or> falsy navigationType'
         then Inl (Error ''Navigation action requires fromScreen, toScreen, trigger, and navigationType'')
         else Inr (actionAttributes
                \<lparr>fromScreen := fromScreen', toScreen := toScreen', trigger := trigger',
                 navigationType := navigationType',
                 params := json_field (extractAttribute actionTag ''params'')\<rparr>))
      else if actionType = Some ''component'' then
        (let componentName' = extractAttribute actionTag ''componentName'';
             componentType' = extractAttribute actionTag ''componentType''
         in
         if falsy componentName' \<or> falsy componentType'
         then Inl (Error ''Component action requires componentName and componentType'')
         else Inr (actionAttributes
                \<lparr>componentName := componentName', componentType := componentType',
                 usedByScreens := comma_list (extractAttribute actionTag ''usedByScreens''),
                 exports := comma_list (extractAttribute actionTag ''exports''),
                 imports' := comma_list (extractAttribute actionTag ''imports'')\<rparr>))
      else Inr actionAttributes)"

subsection \<open>Generated markup\<close>

definition is_lower :: "char \<Rightarrow> bool" where
  "is_lower c = (c \<in> set ''abcdefghijklmnopqrstuvwxyz'')"

definition is_upper :: "char \<Rightarrow> bool" where
  "is_upper c = (c \<in> set ''ABCDEFGHIJKLMNOPQRSTUVWXYZ'')"

text \<open>\<^verbatim>\<open>replace(/([a-z])([A-Z])/g, '$1-$2')\<close>: the matches do not overlap.\<close>

fun camel_dashes :: "string \<Rightarrow> string" where
  "camel_dashes (a # b # cs) =
     (if is_lower a \<and> is_upper b then a # CHR ''-'' # b # camel_dashes cs
      else a # camel_dashes (b # cs))"
| "camel_dashes cs = cs"

text \<open>The keys it is applied to are ASCII, so \<^verbatim>\<open>toLowerCase\<close> is the ASCII one.\<close>

definition camelToDashCase :: "string \<Rightarrow> string" where
  "camelToDashCase input = map ascii_lower (camel_dashes input)"

fun join :: "string \<Rightarrow> string list \<Rightarrow> string" where
  "join sep [] = []"
| "join sep [x] = x"
| "join sep (x # y # ys) = x @ sep @ join sep (y # ys)"

definition data_attribute :: "string \<times> string \<Rightarrow> string" where
  "data_attribute kv = ''data-'' @ camelToDashCase (fst kv) @ ''='' @ JSON_stringify (snd kv)"

text \<open>\<open>props\<close> is the list of the entries of the object, in insertion order.\<close>

definition createArtifactElement :: "(string \<times> string) list \<Rightarrow> string" where
  "createArtifactElement props' =
     (let elementProps = ''class=\"__boltArtifact__\"'' # map data_attribute props'
      in ''<div '' @ join '' '' elementProps @ ''></div>'')"

definition createQuickActionElement :: "(string \<times> string) list \<Rightarrow> string \<Rightarrow> string" where
  "createQuickActionElement props' label =
     (let elementProps =
        ''class=\"__boltQuickAction__\"'' # ''data-bolt-quick-action=\"true\"'' # map data_attribute props'
      in ''<button '' @ join '' '' elementProps @ ''>'' @ label @ ''</button>'')"

definition createQuickActionGroup :: "string list \<Rightarrow> string" where
  "createQuickActionGroup buttons =
     ''<div class=\"__boltQuickAction__\" data-bolt-quick-action=\"true\">'' @ concat buttons @ ''</div>''"

subsection \<open>The quick-actions block\<close>

text \<open>A match of \<^verbatim>\<open><bolt-quick-action([^>]*)>([\s\S]*?)<\/bolt-quick-action>\<close> at the head
  of a text: the attributes, the label, and the text after the match.\<close>

definition quickActionMatch :: "string \<Rightarrow> (string \<times> string \<times> string) option" where
  "quickActionMatch s =
     (case strip_prefix ''<bolt-quick-action'' s of
        None \<Rightarrow> None
      | Some s1 \<Rightarrow>
          (case dropWhile (\<lambda>x. x \<noteq> CHR ''>'') s1 of
             [] \<Rightarrow> None
           | g # s2 \<Rightarrow>
               (case indexOf0 ''</bolt-quick-action>'' s2 of
                  None \<Rightarrow> None
                | Some k \<Rightarrow>
                    Some (takeWhile (\<lambda>x. x \<noteq> CHR ''>'') s1, take k s2,
                          drop (k + length ''</bolt-quick-action>'') s2))))"

text \<open>The leftmost match.\<close>

fun quickActionSearch :: "string \<Rightarrow> (string \<times> string \<times> string) option" where
  "quickActionSearch [] = None"
| "quickActionSearch (c # cs) =
     (case quickActionMatch (c # cs) of
        Some m \<Rightarrow> Some m
      | None \<Rightarrow> quickActionSearch cs)"

lemma indexOf0_bound: "indexOf0 pat s = Some k \<Longrightarrow> k + length pat \<le> length s"
proof (induction s arbitrary: k)
  case Nil
  then show ?case by (simp split: if_splits)
next
  case (Cons c cs)
  show ?case
  proof (cases "prefix pat (c # cs)")
    case True
    with Cons.prems have "k = 0" by simp
    with prefix_length_le [OF True] show ?thesis by simp
  next
    case False
    with Cons.prems obtain k' where "indexOf0 pat cs = Some k'" "k = Suc k'" by auto
    with Cons.IH show ?thesis by fastforce
  qed
qed

lemma quickActionMatch_shorter:
  assumes "quickActionMatch s = Some (a, l, r)"
  shows "length r < length s"
proof -
  from assms obtain s1 g s2 k where
    s1: "strip_prefix ''<bolt-quick-action'' s = Some s1" and
    s2: "dropWhile (\<lambda>x. x \<noteq> CHR ''>'') s1 = g # s2" and
    r: "r = drop (k + length ''</bolt-quick-action>'') s2"
    by (auto simp: quickActionMatch_def split: option.splits list.splits)
  from s1 have "length s1 \<le> length s"
    by (auto simp: strip_prefix_def split: if_splits)
  moreover have "length (dropWhile (\<lambda>x. x \<noteq> CHR ''>'') s1) \<le> length s1"
    by (rule length_dropWhile_le)
  with s2 have "length s2 < length s1" by simp
  moreover from r have "length r \<le> length s2" by simp
  ultimately show ?thesis by linarith
qed

lemma quickActionSearch_shorter:
  "quickActionSearch s = Some (a, l, r) \<Longrightarrow> length r < length s"
proof (induction s)
  case Nil
  then show ?case by simp
next
  case (Cons c cs)
  then show ?case
    by (auto split: option.splits dest: quickActionMatch_shorter)
qed

text \<open>The \<^verbatim>\<open>exec\<close> loop of the global regular expression: every match, left to right.\<close>

function quickActionExec :: "string \<Rightarrow> (string \<times> string) list" where
  "quickActionExec s =
     (case quickActionSearch s of
        None \<Rightarrow> []
      | Some (tagAttrs, label, r) \<Rightarrow> (tagAttrs, label) # quickActionExec r)"
  by pat_completeness auto
termination
  by (relation "measure length") (auto dest: quickActionSearch_shorter)

declare quickActionExec.simps [simp del]

definition or_empty :: "string option \<Rightarrow> string" where
  "or_empty x = (case x of None \<Rightarrow> [] | Some v \<Rightarrow> v)"

text \<open>The first branch of the loop body: \<open>Some\<close> of the markup and the new cursor when the
  branch runs to its \<^verbatim>\<open>continue\<close>, \<open>None\<close> when control falls through to the rest of the body.\<close>

definition quickActionsBlock :: "string \<Rightarrow> nat \<Rightarrow> (string \<times> nat) option" where
  "quickActionsBlock input i =
     (if startsWith input BOLT_QUICK_ACTIONS_OPEN i then
        (case indexOf input BOLT_QUICK_ACTIONS_CLOSE i of
           Some actionsBlockEnd \<Rightarrow>
             (let actionsBlockContent =
                    slice input (i + length BOLT_QUICK_ACTIONS_OPEN) actionsBlockEnd;
                  buttons =
                    map (\<lambda>(tagAttrs, label).
                          createQuickActionElement
                            [(''type'', or_empty (extractAttribute tagAttrs ''type'')),
                             (''message'', or_empty (extractAttribute tagAttrs ''message'')),
                             (''path'', or_empty (extractAttribute tagAttrs ''path'')),
                             (''href'', or_empty (extractAttribute tagAttrs ''href''))]
                            label)
                      (quickActionExec actionsBlockContent)
              in Some (createQuickActionGroup buttons,
                       actionsBlockEnd + length BOLT_QUICK_ACTIONS_CLOSE))
         | None \<Rightarrow> None)
      else None)"

subsection \<open>One iteration of the scanning loop\<close>

text \<open>An iteration ends in one of three ways: it goes on to the next iteration with a new
  state and cursor, having appended output and fired callbacks; it leaves the loop by
  \<^verbatim>\<open>break\<close>, state and cursor as they were, having fired callbacks; or it throws, with the
  state as mutated so far.\<close>

datatype step =
  Continue MessageState nat string "callback list"
  | Break "callback list"
  | Throw MessageState error

text \<open>The branch for a cursor inside an action: close the action, or stream its partial
  content. \<^verbatim>\<open>filePath.endsWith\<close> on a file action without path is the \<^verbatim>\<open>TypeError\<close>.\<close>

definition insideActionStep ::
  "string \<Rightarrow> string \<Rightarrow> MessageState \<Rightarrow> BoltArtifactData \<Rightarrow> nat \<Rightarrow> step" where
  "insideActionStep mid input state artifact i =
     (case indexOf input ARTIFACT_ACTION_TAG_CLOSE i of
        Some closeIndex \<Rightarrow>
          (let action0 = (currentAction state)
                 \<lparr>content := content (currentAction state) @ slice input i closeIndex\<rparr>;
               content0 = trim (content action0);
               closed = (\<lambda>cnt.
                 Continue (state\<lparr>insideAction := False, currentAction := emptyAction\<rparr>)
                   (closeIndex + length ARTIFACT_ACTION_TAG_CLOSE) []
                   [onActionClose
                      \<lparr>artifactId = artifact_id artifact, messageId = mid,
                       actionId' = String (actionId state - 1),
                       action = action0\<lparr>content := cnt\<rparr>\<rparr>])
           in
           if type action0 = Some ''file'' then
             (case filePath action0 of
                None \<Rightarrow> Throw (state\<lparr>currentAction := action0\<rparr>) TypeError
              | Some path \<Rightarrow>
                  closed ((if \<not> endsWith path ''.md''
                           then cleanEscapedTags (cleanoutMarkdownSyntax content0)
                           else content0) @ ''\<newline>''))
           else closed content0)
      | None \<Rightarrow>
          if type (currentAction state) = Some ''file'' then
            (case filePath (currentAction state) of
               None \<Rightarrow> Throw state TypeError
             | Some path \<Rightarrow>
                 Break
                   [onActionStream
                      \<lparr>artifactId = artifact_id artifact, messageId = mid,
                       actionId' = String (actionId state - 1),
                       action = (currentAction state)
                         \<lparr>content := (if \<not> endsWith path ''.md''
                                       then cleanEscapedTags (cleanoutMarkdownSyntax (sliceFrom input i))
                                       else sliceFrom input i)\<rparr>\<rparr>])
          else Break [])"

text \<open>The branch for a cursor inside an artifact and outside an action: open the next
  action when its tag comes before the end of the artifact, else close the artifact.
  \<^verbatim>\<open>insideAction\<close> is set before the tag is parsed, so it stays set when the parsing throws.\<close>

definition openAction ::
  "string \<Rightarrow> string \<Rightarrow> MessageState \<Rightarrow> BoltArtifactData \<Rightarrow> nat \<Rightarrow> step" where
  "openAction mid input state artifact actionOpenIndex =
     (case indexOf input ''>'' actionOpenIndex of
        Some actionEndIndex \<Rightarrow>
          (case parseActionTag input actionOpenIndex actionEndIndex of
             Inl e \<Rightarrow> Throw (state\<lparr>insideAction := True\<rparr>) e
           | Inr a \<Rightarrow>
               Continue
                 (state\<lparr>insideAction := True, currentAction := a, actionId := actionId state + 1\<rparr>)
                 (actionEndIndex + 1) []
                 [onActionOpen
                    \<lparr>artifactId = artifact_id artifact, messageId = mid,
                     actionId' = String (actionId state), action = a\<rparr>])
      | None \<Rightarrow> Break [])"

definition closeArtifact ::
  "string \<Rightarrow> MessageState \<Rightarrow> BoltArtifactData \<Rightarrow> nat \<Rightarrow> step" where
  "closeArtifact mid state artifact artifactCloseIndex =
     Continue (state\<lparr>insideArtifact := False, currentArtifact := None\<rparr>)
       (artifactCloseIndex + length ARTIFACT_TAG_CLOSE) []
       [onArtifactClose mid artifact]"

definition outsideActionStep ::
  "string \<Rightarrow> string \<Rightarrow> MessageState \<Rightarrow> BoltArtifactData \<Rightarrow> nat \<Rightarrow> step" where
  "outsideActionStep mid input state artifact i =
     (case (indexOf input ARTIFACT_ACTION_TAG_OPEN i, indexOf input ARTIFACT_TAG_CLOSE i) of
        (Some actionOpenIndex, None) \<Rightarrow> openAction mid input state artifact actionOpenIndex
      | (Some actionOpenIndex, Some artifactCloseIndex) \<Rightarrow>
          if actionOpenIndex < artifactCloseIndex
          then openAction mid input state artifact actionOpenIndex
          else closeArtifact mid state artifact artifactCloseIndex
      | (None, Some artifactCloseIndex) \<Rightarrow> closeArtifact mid state artifact artifactCloseIndex
      | (None, None) \<Rightarrow> Break [])"

text \<open>The inner loop that compares the text at a \<^verbatim>\<open><\<close> with \<^verbatim>\<open><boltArtifact\<close>, one character
  at a time: it stops at \<open>j\<close> on a full match or on a mismatch, or runs out of text.\<close>

datatype scan = Matched nat | Mismatched nat | Exhausted nat string

function scanTag :: "string \<Rightarrow> nat \<Rightarrow> string \<Rightarrow> scan" where
  "scanTag input j potentialTag =
     (if j < length input \<and> length potentialTag < length ARTIFACT_TAG_OPEN then
        (let potentialTag' = potentialTag @ [input ! j] in
         if potentialTag' = ARTIFACT_TAG_OPEN then Matched j
         else if \<not> prefix potentialTag' ARTIFACT_TAG_OPEN then Mismatched j
         else scanTag input (Suc j) potentialTag')
      else Exhausted j potentialTag)"
  by pat_completeness auto
termination
  by (relation "measure (\<lambda>(input, j, potentialTag). length input - j)") auto

declare scanTag.simps [simp del]

text \<open>The branch for a \<^verbatim>\<open><\<close> outside any artifact. \<open>artifactFactory\<close> is the configured
  \<^verbatim>\<open>artifactElement\<close>, or \<^verbatim>\<open>createArtifactElement\<close>.\<close>

definition openTagStep ::
  "(string \<Rightarrow> string) option \<Rightarrow> string \<Rightarrow> string \<Rightarrow> MessageState \<Rightarrow> nat \<Rightarrow> step" where
  "openTagStep artifactElement mid input state i =
     (case scanTag input i [] of
        Matched j \<Rightarrow>
          (let nextChar = charAt input (j + 1) in
           if nextChar \<noteq> None \<and> nextChar \<noteq> Some CHR ''>'' \<and> nextChar \<noteq> Some CHR '' ''
           then Continue state (j + 1) (slice input i (j + 1)) []
           else
             (case indexOf input ''>'' j of
                Some openTagEnd \<Rightarrow>
                  (let artifactTag = slice input i (openTagEnd + 1);
                       artifact =
                         \<lparr>artifact_id = extractAttribute artifactTag ''id'',
                          artifact_title = extractAttribute artifactTag ''title'',
                          artifact_type = extractAttribute artifactTag ''type''\<rparr>;
                       artifactFactory =
                         (case artifactElement of
                            Some f \<Rightarrow> f
                          | None \<Rightarrow> (\<lambda>m. createArtifactElement [(''messageId'', m)]))
                   in Continue (state\<lparr>insideArtifact := True, currentArtifact := Some artifact\<rparr>)
                        (openTagEnd + 1) (artifactFactory mid)
                        [onArtifactOpen mid artifact])
              | None \<Rightarrow> Break []))
      | Mismatched j \<Rightarrow> Continue state (j + 1) (slice input i (j + 1)) []
      | Exhausted j potentialTag \<Rightarrow>
          if j = length input \<and> prefix potentialTag ARTIFACT_TAG_OPEN then Break []
          else Continue state i [] [])"

text \<open>The body of the \<^verbatim>\<open>while\<close> loop.\<close>

definition parse_step ::
  "(string \<Rightarrow> string) option \<Rightarrow> string \<Rightarrow> string \<Rightarrow> MessageState \<Rightarrow> nat \<Rightarrow> step" where
  "parse_step artifactElement mid input state i =
     (case quickActionsBlock input i of
        Some (markup, i') \<Rightarrow> Continue state i' markup []
      | None \<Rightarrow>
          if insideArtifact state then
            (case currentArtifact state of
               None \<Rightarrow> Throw state (Unreachable ''Artifact not initialized'')
             | Some artifact \<Rightarrow>
                 if insideAction state then insideActionStep mid input state artifact i
                 else outsideActionStep mid input state artifact i)
          else if charAt input i = Some CHR ''<'' \<and> charAt input (i + 1) \<noteq> Some CHR ''/''
          then openTagStep artifactElement mid input state i
          else Continue state (i + 1)
                 (case charAt input i of Some c \<Rightarrow> [c] | None \<Rightarrow> ''undefined'') [])"

subsection \<open>Every iteration that goes on moves the cursor forward\<close>

lemma indexOf_bounds:
  assumes "indexOf input pat i = Some k"
  shows "min i (length input) \<le> k \<and> k + length pat \<le> length input"
proof -
  let ?m = "min i (length input)"
  from assms obtain d where d: "indexOf0 pat (drop ?m input) = Some d" and k: "k = ?m + d"
    by (auto simp: indexOf_def Let_def)
  from indexOf0_bound [OF d] have "d + length pat \<le> length input - ?m" by simp
  with k show ?thesis by auto
qed

lemma quickActionsBlock_advances:
  assumes "quickActionsBlock input i = Some (markup, i')" and "i < length input"
  shows "i < i' \<and> i' \<le> length input"
proof -
  from assms(1) obtain e where e: "indexOf input BOLT_QUICK_ACTIONS_CLOSE i = Some e"
    and i': "i' = e + length BOLT_QUICK_ACTIONS_CLOSE"
    by (auto simp: quickActionsBlock_def Let_def split: if_splits option.splits)
  from indexOf_bounds [OF e] assms(2) i' show ?thesis
    by (auto simp: BOLT_QUICK_ACTIONS_CLOSE_def)
qed

lemma scanTag_range:
  "j \<le> length input \<Longrightarrow> prefix p ARTIFACT_TAG_OPEN \<Longrightarrow> p \<noteq> ARTIFACT_TAG_OPEN \<Longrightarrow>
   (case scanTag input j p of
      Matched j' \<Rightarrow> j \<le> j' \<and> j' < length input
    | Mismatched j' \<Rightarrow> j \<le> j' \<and> j' < length input
    | Exhausted j' p' \<Rightarrow> j' = length input \<and> prefix p' ARTIFACT_TAG_OPEN)"
proof (induction input j p rule: scanTag.induct)
  case (1 input j potentialTag)
  have len: "length potentialTag < length ARTIFACT_TAG_OPEN"
    using "1.prems"(2,3) by (metis prefix_length_le le_neq_implies_less prefix_length_prefix prefix_order.eq_iff order_refl)
  show ?case
  proof (cases "j < length input")
    case False
    with "1.prems" show ?thesis by (subst scanTag.simps) simp
  next
    case True
    let ?p = "potentialTag @ [input ! j]"
    show ?thesis
    proof (cases "?p = ARTIFACT_TAG_OPEN")
      case eq: True
      with True len show ?thesis by (subst scanTag.simps) (simp add: Let_def)
    next
      case neq: False
      show ?thesis
      proof (cases "prefix ?p ARTIFACT_TAG_OPEN")
        case False
        with True len neq show ?thesis by (subst scanTag.simps) (simp add: Let_def)
      next
        case pre: True
        from "1.IH" [OF _ refl neq _ _ pre neq] True len pre
        have "case scanTag input (Suc j) ?p of
                Matched j' \<Rightarrow> Suc j \<le> j' \<and> j' < length input
              | Mismatched j' \<Rightarrow> Suc j \<le> j' \<and> j' < length input
              | Exhausted j' p' \<Rightarrow> j' = length input \<and> prefix p' ARTIFACT_TAG_OPEN"
          by simp
        moreover have "scanTag input j potentialTag = scanTag input (Suc j) ?p"
          using True len neq pre by (subst scanTag.simps) (simp add: Let_def)
        ultimately show ?thesis by (auto split: scan.splits)
      qed
    qed
  qed
qed

lemma openTagStep_advances:
  assumes "openTagStep ae mid input state i = Continue state' i' out evs" and "i < length input"
  shows "i < i' \<and> i' \<le> length input"
proof -
  have r: "case scanTag input i [] of
      Matched j' \<Rightarrow> i \<le> j' \<and> j' < length input
    | Mismatched j' \<Rightarrow> i \<le> j' \<and> j' < length input
    | Exhausted j' p' \<Rightarrow> j' = length input \<and> prefix p' ARTIFACT_TAG_OPEN"
    using scanTag_range [of i input "[]"] assms(2) by (simp add: ARTIFACT_TAG_OPEN_def)
  show ?thesis
  proof (cases "scanTag input i []")
    case (Matched j)
    with r have j: "i \<le> j" "j < length input" by auto
    show ?thesis
    proof (cases "indexOf input ''>'' j")
      case None
      with assms(1) Matched j show ?thesis
        by (auto simp: openTagStep_def Let_def split: if_splits)
    next
      case (Some e)
      from indexOf_bounds [OF Some] j have "j \<le> e" "e < length input" by auto
      with assms(1) Matched j Some show ?thesis
        by (auto simp: openTagStep_def Let_def split: if_splits)
    qed
  next
    case (Mismatched j)
    with r assms(1) show ?thesis by (auto simp: openTagStep_def)
  next
    case (Exhausted j p)
    with r assms(1) show ?thesis by (auto simp: openTagStep_def)
  qed
qed

lemma insideActionStep_advances:
  assumes "insideActionStep mid input state artifact i = Continue state' i' out evs" and "i < length input"
  shows "i < i' \<and> i' \<le> length input"
proof -
  from assms(1) obtain c where c: "indexOf input ARTIFACT_ACTION_TAG_CLOSE i = Some c"
    and i': "i' = c + length ARTIFACT_ACTION_TAG_CLOSE"
    by (auto simp: insideActionStep_def Let_def split: option.splits if_splits)
  from indexOf_bounds [OF c] assms(2) i' show ?thesis
    by (auto simp: ARTIFACT_ACTION_TAG_CLOSE_def)
qed

lemma openAction_advances:
  assumes "openAction mid input state artifact a = Continue state' i' out evs" and "i \<le> a" "i < length input"
  shows "i < i' \<and> i' \<le> length input"
proof -
  from assms(1) obtain e where e: "indexOf input ''>'' a = Some e" and i': "i' = e + 1"
    by (auto simp: openAction_def split: option.splits sum.splits)
  from indexOf_bounds [OF e] assms(2,3) i' show ?thesis by auto
qed

lemma closeArtifact_advances:
  assumes "closeArtifact mid state artifact c = Continue state' i' out evs"
    and "indexOf input ARTIFACT_TAG_CLOSE i = Some c" and "i < length input"
  shows "i < i' \<and> i' \<le> length input"
  using assms(1,3) indexOf_bounds [OF assms(2)]
  by (auto simp: closeArtifact_def ARTIFACT_TAG_CLOSE_def)

lemma outsideActionStep_advances:
  assumes "outsideActionStep mid input state artifact i = Continue state' i' out evs" and "i < length input"
  shows "i < i' \<and> i' \<le> length input"
proof (cases "indexOf input ARTIFACT_ACTION_TAG_OPEN i")
  case None
  then show ?thesis
    using assms closeArtifact_advances
    by (cases "indexOf input ARTIFACT_TAG_CLOSE i") (auto simp: outsideActionStep_def)
next
  case (Some a)
  from indexOf_bounds [OF Some] assms(2) have ia: "i \<le> a" by auto
  show ?thesis
  proof (cases "indexOf input ARTIFACT_TAG_CLOSE i")
    case None
    with Some assms openAction_advances [OF _ ia assms(2)] show ?thesis
      by (auto simp: outsideActionStep_def)
  next
    case c: (Some c)
    with Some assms openAction_advances [OF _ ia assms(2)] closeArtifact_advances [OF _ c assms(2)]
    show ?thesis
      by (auto simp: outsideActionStep_def split: if_splits)
  qed
qed

lemma parse_step_advances:
  assumes "parse_step ae mid input state i = Continue state' i' out evs" and "i < length input"
  shows "i < i' \<and> i' \<le> length input"
proof (cases "quickActionsBlock input i")
  case (Some m)
  obtain markup k where m: "m = (markup, k)" by (cases m)
  with Some assms(1) have "k = i'" by (simp add: parse_step_def)
  with quickActionsBlock_advances [of input i markup k] Some m assms(2) show ?thesis
    by simp
next
  case None
  with assms show ?thesis
    by (auto simp: parse_step_def split: if_splits option.splits
        dest: insideActionStep_advances outsideActionStep_advances openTagStep_advances)
qed

subsection \<open>The loop and \<^verbatim>\<open>parse\<close>\<close>

text \<open>The \<^verbatim>\<open>while\<close> loop, with the output and the fired callbacks accumulated. It returns the
  state, the cursor, the callbacks, and the output or the exception.\<close>

function parse_loop ::
  "(string \<Rightarrow> string) option \<Rightarrow> string \<Rightarrow> string \<Rightarrow> MessageState \<Rightarrow> nat \<Rightarrow> string \<Rightarrow> callback list
   \<Rightarrow> MessageState \<times> nat \<times> callback list \<times> (error + string)" where
  "parse_loop ae mid input state i output fired =
     (if i < length input then
        (case parse_step ae mid input state i of
           Continue state' i' out evs \<Rightarrow>
             parse_loop ae mid input state' i' (output @ out) (fired @ evs)
         | Break evs \<Rightarrow> (state, i, fired @ evs, Inr output)
         | Throw state' e \<Rightarrow> (state', i, fired, Inl e))
      else (state, i, fired, Inr output))"
  by pat_completeness auto
termination
  by (relation "measure (\<lambda>(ae, mid, input, state, i, output, fired). length input - i)")
     (auto dest: parse_step_advances)

declare parse_loop.simps [simp del]

text \<open>\<^verbatim>\<open>parse\<close> on the state of the message: the loop runs from the stored position, and the
  position is stored back when the loop is left without an exception.\<close>

definition parse_state ::
  "(string \<Rightarrow> string) option \<Rightarrow> string \<Rightarrow> MessageState \<Rightarrow> string
   \<Rightarrow> MessageState \<times> callback list \<times> (error + string)" where
  "parse_state ae mid state input =
     (case parse_loop ae mid input state (position state) [] [] of
        (state', i, fired, Inr output) \<Rightarrow> (state'\<lparr>position := i\<rparr>, fired, Inr output)
      | (state', i, fired, Inl e) \<Rightarrow> (state', fired, Inl e))"

definition newState :: MessageState where
  "newState =
     \<lparr>position = 0, insideArtifact = False, insideAction = False, currentArtifact = None,
      currentAction = emptyAction, actionId = 0\<rparr>"

text \<open>\<^verbatim>\<open>parse(messageId, input)\<close> on the table of message states.\<close>

definition parse ::
  "(string \<Rightarrow> string) option \<Rightarrow> (string \<rightharpoonup> MessageState) \<Rightarrow> string \<Rightarrow> string
   \<Rightarrow> (string \<rightharpoonup> MessageState) \<times> callback list \<times> (error + string)" where
  "parse ae messages mid input =
     (let state = (case messages mid of Some st \<Rightarrow> st | None \<Rightarrow> newState)
      in case parse_state ae mid state input of
           (state', fired, r) \<Rightarrow> (messages(mid \<mapsto> state'), fired, r))"

text \<open>A caller that feeds a message to the parser in successive calls: the final state, all
  the callbacks fired, and the result of each call.\<close>

fun parse_all ::
  "(string \<Rightarrow> string) option \<Rightarrow> string \<Rightarrow> MessageState \<Rightarrow> string list
   \<Rightarrow> MessageState \<times> callback list \<times> (error + string) list" where
  "parse_all ae mid state [] = (state, [], [])"
| "parse_all ae mid state (input # inputs) =
     (case parse_state ae mid state input of
        (state', fired, r) \<Rightarrow>
          (case parse_all ae mid state' inputs of
             (state'', fired', rs) \<Rightarrow> (state'', fired @ fired', r # rs)))"

section \<open>Properties\<close>

subsection \<open>The cursor\<close>

lemma insideActionStep_position:
  "insideActionStep mid input st art i = Continue st' i' out evs \<Longrightarrow> position st' = position st"
  "insideActionStep mid input st art i = Throw st' e \<Longrightarrow> position st' = position st"
  by (auto simp: insideActionStep_def Let_def split: option.splits if_splits)

lemma outsideActionStep_position:
  "outsideActionStep mid input st art i = Continue st' i' out evs \<Longrightarrow> position st' = position st"
  "outsideActionStep mid input st art i = Throw st' e \<Longrightarrow> position st' = position st"
  by (auto simp: outsideActionStep_def openAction_def closeArtifact_def
      split: option.splits if_splits sum.splits)

lemma openTagStep_position:
  "openTagStep ae mid input st i = Continue st' i' out evs \<Longrightarrow> position st' = position st"
  "openTagStep ae mid input st i = Throw st' e \<Longrightarrow> position st' = position st"
  by (auto simp: openTagStep_def Let_def split: option.splits if_splits scan.splits)

lemma parse_step_position:
  "parse_step ae mid input st i = Continue st' i' out evs \<Longrightarrow> position st' = position st"
  "parse_step ae mid input st i = Throw st' e \<Longrightarrow> position st' = position st"
  by (auto simp: parse_step_def split: option.splits if_splits prod.splits
      dest: insideActionStep_position outsideActionStep_position openTagStep_position)

lemma parse_loop_cursor:
  "parse_loop ae mid input st i out f = (st', i', f', r) \<Longrightarrow> i \<le> i' \<and> position st' = position st"
proof (induction ae mid input st i out f rule: parse_loop.induct)
  case (1 ae mid input state i out0 fired)
  show ?case
  proof (cases "i < length input")
    case False
    with "1.prems" show ?thesis by (simp add: parse_loop.simps)
  next
    case True
    show ?thesis
    proof (cases "parse_step ae mid input state i")
      case (Continue s2 i2 o2 e2)
      with True "1.prems" have "parse_loop ae mid input s2 i2 (out0 @ o2) (fired @ e2) = (st', i', f', r)"
        by (simp add: parse_loop.simps [of ae mid input state i])
      from "1.IH" [OF True Continue this] parse_step_advances [OF Continue True]
        parse_step_position(1) [OF Continue]
      show ?thesis by simp
    next
      case (Break e2)
      with True "1.prems" show ?thesis by (simp add: parse_loop.simps [of ae mid input state i])
    next
      case (Throw s2 e)
      with True "1.prems" parse_step_position(2) [OF Throw] show ?thesis
        by (auto simp add: parse_loop.simps [of ae mid input state i])
    qed
  qed
qed

lemma parse_state_position:
  "position st \<le> position (fst (parse_state ae mid st input))"
proof -
  obtain st' i' f' r where l: "parse_loop ae mid input st (position st) [] [] = (st', i', f', r)"
    by (cases "parse_loop ae mid input st (position st) [] []") auto
  from parse_loop_cursor [OF l] l show ?thesis
    by (cases r) (simp_all add: parse_state_def)
qed

text \<open>A call works on the text from the stored cursor on: two texts of the same length that
  agree from the stored position on give the same state, the same callbacks and the same result,
  whatever stands before the cursor.\<close>

text \<open>Two texts of the same length that agree from \<open>i\<close> on.\<close>

definition agree_from :: "nat \<Rightarrow> string \<Rightarrow> string \<Rightarrow> bool" where
  "agree_from i x y = (length x = length y \<and> drop i x = drop i y)"

lemma agree_from_mono:
  assumes "agree_from i x y" and "i \<le> j"
  shows "agree_from j x y"
proof -
  have "drop j x = drop (j - i) (drop i x)" "drop j y = drop (j - i) (drop i y)"
    using assms(2) by simp_all
  with assms(1) show ?thesis by (simp add: agree_from_def)
qed

lemma agree_indexOf: "agree_from i x y \<Longrightarrow> i \<le> j \<Longrightarrow> indexOf x pat j = indexOf y pat j"
proof -
  assume "agree_from i x y" "i \<le> j"
  then have a: "agree_from j x y" by (rule agree_from_mono)
  show ?thesis
  proof (cases "j \<le> length x")
    case True
    with a show ?thesis by (simp add: indexOf_def agree_from_def min_def)
  next
    case False
    with a show ?thesis by (simp add: indexOf_def agree_from_def min_def)
  qed
qed

lemma agree_slice: "agree_from i x y \<Longrightarrow> i \<le> a \<Longrightarrow> slice x a b = slice y a b"
  using agree_from_mono [of i x y a] by (simp add: slice_def agree_from_def)

lemma agree_sliceFrom: "agree_from i x y \<Longrightarrow> i \<le> a \<Longrightarrow> sliceFrom x a = sliceFrom y a"
  using agree_from_mono [of i x y a] by (simp add: sliceFrom_def agree_from_def)

lemma agree_nth:
  assumes "agree_from i x y" and "i \<le> j" and "j < length x"
  shows "x ! j = y ! j"
proof -
  from agree_from_mono [OF assms(1,2)] have a: "length x = length y" "drop j x = drop j y"
    by (simp_all add: agree_from_def)
  have "x ! j = hd (drop j x)" using assms(3) by (simp add: hd_drop_conv_nth)
  also have "\<dots> = hd (drop j y)" using a by simp
  also have "\<dots> = y ! j" using assms(3) a by (simp add: hd_drop_conv_nth)
  finally show ?thesis .
qed

lemma agree_charAt: "agree_from i x y \<Longrightarrow> i \<le> j \<Longrightarrow> charAt x j = charAt y j"
  using agree_nth [of i x y j] by (auto simp: charAt_def agree_from_def)

lemma agree_startsWith: "agree_from i x y \<Longrightarrow> i \<le> j \<Longrightarrow> startsWith x pat j = startsWith y pat j"
  using agree_from_mono [of i x y j] by (simp add: startsWith_def agree_from_def)

lemma agree_quickActionsBlock:
  assumes "agree_from i x y"
  shows "quickActionsBlock x i = quickActionsBlock y i"
proof -
  have a: "slice x (i + length BOLT_QUICK_ACTIONS_OPEN) e = slice y (i + length BOLT_QUICK_ACTIONS_OPEN) e" for e
    using assms by (rule agree_slice) simp
  have b: "startsWith x BOLT_QUICK_ACTIONS_OPEN i = startsWith y BOLT_QUICK_ACTIONS_OPEN i"
    using assms by (rule agree_startsWith) simp
  have c: "indexOf x BOLT_QUICK_ACTIONS_CLOSE i = indexOf y BOLT_QUICK_ACTIONS_CLOSE i"
    using assms by (rule agree_indexOf) simp
  show ?thesis unfolding quickActionsBlock_def a b c ..
qed

lemma agree_insideActionStep:
  assumes "agree_from i x y"
  shows "insideActionStep mid x st art i = insideActionStep mid y st art i"
proof -
  have a: "indexOf x ARTIFACT_ACTION_TAG_CLOSE i = indexOf y ARTIFACT_ACTION_TAG_CLOSE i"
    using assms by (rule agree_indexOf) simp
  have b: "slice x i e = slice y i e" for e using assms by (rule agree_slice) simp
  have c: "sliceFrom x i = sliceFrom y i" using assms by (rule agree_sliceFrom) simp
  show ?thesis unfolding insideActionStep_def a b c ..
qed

lemma agree_openAction:
  assumes "agree_from i x y" and "i \<le> a"
  shows "openAction mid x st art a = openAction mid y st art a"
proof -
  have p: "parseActionTag x a e = parseActionTag y a e" for e
    using agree_slice [OF assms] by (simp add: parseActionTag_def)
  have q: "indexOf x ''>'' a = indexOf y ''>'' a" using assms by (rule agree_indexOf)
  show ?thesis unfolding openAction_def p q ..
qed

lemma agree_outsideActionStep:
  assumes "agree_from i x y" and "i \<le> length x"
  shows "outsideActionStep mid x st art i = outsideActionStep mid y st art i"
proof -
  have o: "openAction mid x st art a = openAction mid y st art a"
    if "indexOf y ARTIFACT_ACTION_TAG_OPEN i = Some a" for a
  proof -
    have "length x = length y" using assms(1) by (simp add: agree_from_def)
    with indexOf_bounds [OF that] assms(2) have "i \<le> a" by simp
    with assms(1) show ?thesis by (rule agree_openAction)
  qed
  have a: "indexOf x ARTIFACT_ACTION_TAG_OPEN i = indexOf y ARTIFACT_ACTION_TAG_OPEN i"
    using assms(1) by (rule agree_indexOf) simp
  have c: "indexOf x ARTIFACT_TAG_CLOSE i = indexOf y ARTIFACT_TAG_CLOSE i"
    using assms(1) by (rule agree_indexOf) simp
  show ?thesis
  proof (cases "indexOf y ARTIFACT_ACTION_TAG_OPEN i")
    case None
    then show ?thesis unfolding outsideActionStep_def a c by simp
  next
    case (Some k)
    from o [OF Some] Some show ?thesis unfolding outsideActionStep_def a c
      by (simp split: option.splits)
  qed
qed

lemma agree_scanTag:
  "agree_from i x y \<Longrightarrow> i \<le> j \<Longrightarrow> scanTag x j q = scanTag y j q"
proof (induction x j q rule: scanTag.induct)
  case (1 input j potentialTag)
  have len: "length input = length y" using "1.prems"(1) by (simp add: agree_from_def)
  show ?case
  proof (cases "j < length input \<and> length potentialTag < length ARTIFACT_TAG_OPEN")
    case False
    then show ?thesis using len by (subst scanTag.simps, subst (2) scanTag.simps) auto
  next
    case True
    then have nth: "input ! j = y ! j" using agree_nth [OF "1.prems"] by simp
    let ?p = "potentialTag @ [input ! j]"
    show ?thesis
    proof (cases "?p = ARTIFACT_TAG_OPEN \<or> \<not> prefix ?p ARTIFACT_TAG_OPEN")
      case stop: True
      then show ?thesis using True len nth
        by (subst scanTag.simps, subst (2) scanTag.simps) (auto simp: Let_def)
    next
      case go: False
      have a: "scanTag input j potentialTag = scanTag input (Suc j) ?p"
        using True go by (subst scanTag.simps) (simp add: Let_def)
      have b: "scanTag y j potentialTag = scanTag y (Suc j) ?p"
        using True len nth go by (subst scanTag.simps) (simp add: Let_def)
      have "scanTag input (Suc j) ?p = scanTag y (Suc j) ?p"
        using "1.IH" [OF True refl _ _ "1.prems"(1)] go "1.prems"(2) by auto
      with a b show ?thesis by simp
    qed
  qed
qed

lemma agree_openTagStep:
  assumes "agree_from i x y" and "i < length x"
  shows "openTagStep ae mid x st i = openTagStep ae mid y st i"
proof -
  have len: "length x = length y" using assms(1) by (simp add: agree_from_def)
  have rng: "case scanTag x i [] of
      Matched j' \<Rightarrow> i \<le> j' \<and> j' < length x
    | Mismatched j' \<Rightarrow> i \<le> j' \<and> j' < length x
    | Exhausted j' p' \<Rightarrow> j' = length x \<and> prefix p' ARTIFACT_TAG_OPEN"
    using scanTag_range [of i x "[]"] assms(2) by (simp add: ARTIFACT_TAG_OPEN_def)
  have s: "scanTag x i [] = scanTag y i []" using assms(1) by (rule agree_scanTag) simp
  have sl: "slice x i b = slice y i b" for b using assms(1) by (rule agree_slice) simp
  show ?thesis
  proof (cases "scanTag x i []")
    case (Matched j)
    with rng have ij: "i \<le> j" by simp
    have c: "charAt x (j + 1) = charAt y (j + 1)"
      using assms(1) by (rule agree_charAt) (use ij in simp)
    have d: "indexOf x ''>'' j = indexOf y ''>'' j"
      using assms(1) ij by (rule agree_indexOf)
    from Matched s have sy: "scanTag y i [] = Matched j" by simp
    show ?thesis unfolding openTagStep_def Matched sy scan.case sl c d ..
  next
    case (Mismatched j)
    from Mismatched s have sy: "scanTag y i [] = Mismatched j" by simp
    show ?thesis unfolding openTagStep_def Mismatched sy scan.case sl ..
  next
    case (Exhausted j p)
    from Exhausted s have sy: "scanTag y i [] = Exhausted j p" by simp
    show ?thesis unfolding openTagStep_def Exhausted sy scan.case sl len ..
  qed
qed

lemma agree_parse_step:
  assumes "agree_from i x y" and "i < length x"
  shows "parse_step ae mid x st i = parse_step ae mid y st i"
proof -
  have q: "quickActionsBlock x i = quickActionsBlock y i"
    using assms(1) by (rule agree_quickActionsBlock)
  have a: "insideActionStep mid x st art i = insideActionStep mid y st art i" for art
    using assms(1) by (rule agree_insideActionStep)
  have b: "outsideActionStep mid x st art i = outsideActionStep mid y st art i" for art
    using assms by (intro agree_outsideActionStep) simp_all
  have c: "openTagStep ae mid x st i = openTagStep ae mid y st i"
    using assms by (rule agree_openTagStep)
  have d: "charAt x i = charAt y i" using assms(1) by (rule agree_charAt) simp
  have e: "charAt x (i + 1) = charAt y (i + 1)" using assms(1) by (rule agree_charAt) simp
  show ?thesis unfolding parse_step_def q a b c d e ..
qed

lemma agree_parse_loop:
  "agree_from i x y \<Longrightarrow> parse_loop ae mid x st i out f = parse_loop ae mid y st i out f"
proof (induction "length x - i" arbitrary: st i out f rule: less_induct)
  case less
  have len: "length x = length y" using less.prems by (simp add: agree_from_def)
  show ?case
  proof (cases "i < length x")
    case False
    with len show ?thesis
      by (simp add: parse_loop.simps [of ae mid x st i] parse_loop.simps [of ae mid y st i])
  next
    case True
    have s: "parse_step ae mid x st i = parse_step ae mid y st i"
      using less.prems True by (rule agree_parse_step)
    have ly: "i < length y" using True len by simp
    show ?thesis
    proof (cases "parse_step ae mid x st i")
      case (Continue s2 i2 o2 e2)
      from parse_step_advances [OF Continue True] True
      have m: "length x - i2 < length x - i" and le: "i \<le> i2" by auto
      have r: "parse_loop ae mid x s2 i2 (out @ o2) (f @ e2) = parse_loop ae mid y s2 i2 (out @ o2) (f @ e2)"
        using m agree_from_mono [OF less.prems le] by (rule less.hyps)
      from Continue s have sy: "parse_step ae mid y st i = Continue s2 i2 o2 e2" by simp
      show ?thesis
        by (simp add: parse_loop.simps [of ae mid x st i] parse_loop.simps [of ae mid y st i]
            True ly Continue sy r)
    next
      case (Break e2)
      from Break s have sy: "parse_step ae mid y st i = Break e2" by simp
      show ?thesis
        by (simp add: parse_loop.simps [of ae mid x st i] parse_loop.simps [of ae mid y st i]
            True ly Break sy)
    next
      case (Throw s2 e)
      from Throw s have sy: "parse_step ae mid y st i = Throw s2 e" by simp
      show ?thesis
        by (simp add: parse_loop.simps [of ae mid x st i] parse_loop.simps [of ae mid y st i]
            True ly Throw sy)
    qed
  qed
qed

lemma agree_parse_state:
  "agree_from (position st) x y \<Longrightarrow> parse_state ae mid st x = parse_state ae mid st y"
  by (simp add: parse_state_def agree_parse_loop)

lemma agree_parse_all:
  "e \<le> position s \<Longrightarrow> list_all2 (agree_from e) ys ys' \<Longrightarrow>
   parse_all ae mid s ys = parse_all ae mid s ys'"
proof (induction ys arbitrary: s ys')
  case Nil
  then show ?case by simp
next
  case (Cons y ys)
  from Cons.prems(2) obtain y' zs where e: "ys' = y' # zs" and a: "agree_from e y y'"
    and r: "list_all2 (agree_from e) ys zs"
    by (cases ys') auto
  have p: "parse_state ae mid s y = parse_state ae mid s y'"
    using agree_from_mono [OF a Cons.prems(1)] by (rule agree_parse_state)
  obtain s2 f2 r2 where q: "parse_state ae mid s y' = (s2, f2, r2)"
    by (cases "parse_state ae mid s y'") auto
  from parse_state_position [of s ae mid y'] q Cons.prems(1) have "e \<le> position s2" by simp
  from Cons.IH [OF this r] p q e show ?case by simp
qed

text \<open>The value of the loop cursor \<^verbatim>\<open>i\<close> when a call ends, by return or by exception: the
  call has scanned the text from the stored position up to that index, and its output and
  its callbacks come from there.\<close>

definition scanned_to :: "(string \<Rightarrow> string) option \<Rightarrow> string \<Rightarrow> MessageState \<Rightarrow> string \<Rightarrow> nat" where
  "scanned_to ae mid state input = fst (snd (parse_loop ae mid input state (position state) [] []))"

lemma parse_state_scanned_to:
  "\<not> isl (snd (snd (parse_state ae mid st input))) \<Longrightarrow>
   position (fst (parse_state ae mid st input)) = scanned_to ae mid st input"
proof -
  assume a: "\<not> isl (snd (snd (parse_state ae mid st input)))"
  obtain st' i' f' r where l: "parse_loop ae mid input st (position st) [] [] = (st', i', f', r)"
    by (cases "parse_loop ae mid input st (position st) [] []") auto
  with a show ?thesis
    by (cases r) (simp_all add: parse_state_def scanned_to_def)
qed

text \<open>
  Claim C6, as stated, concludes for every call that what has been finalized is not
  processed or emitted again. A call that throws has fired callbacks for the text it has
  scanned, but the assignment \<^verbatim>\<open>state.position = i\<close> after the loop is skipped: the stored
  position stays behind the scanned text, and the next call scans that text again. Below,
  the first call announces the artifact and throws at index 31, on an action tag that lacks
  its attributes; the stored position stays 0. The second call starts at index 0 in the
  state the first one has left, inside an action, and delivers the text from index 0 up to
  the close tag, the artifact tag included, as the content of an action. Of two texts that
  agree from index 31 on, the second call makes different callbacks.
\<close>

theorem thrown_call_scanned_again:
  "isl (snd (snd (parse_state None ''m'' newState
      ''<boltArtifact id=\"a\" title=\"t\"><boltAction type=\"screen\">'')))
   \<and> fst (snd (parse_state None ''m'' newState
      ''<boltArtifact id=\"a\" title=\"t\"><boltAction type=\"screen\">''))
     = [onArtifactOpen ''m''
          \<lparr>artifact_id = Some ''a'', artifact_title = Some ''t'', artifact_type = None\<rparr>]
   \<and> position (fst (parse_state None ''m'' newState
      ''<boltArtifact id=\"a\" title=\"t\"><boltAction type=\"screen\">'')) = 0
   \<and> scanned_to None ''m'' newState
      ''<boltArtifact id=\"a\" title=\"t\"><boltAction type=\"screen\">'' = 31
   \<and> (case fst (snd (parse_state None ''m''
          (fst (parse_state None ''m'' newState
             ''<boltArtifact id=\"a\" title=\"t\"><boltAction type=\"screen\">''))
          ''<boltArtifact id=\"a\" title=\"t\"><boltAction type=\"screen\">x</boltAction></boltArtifact>'')) of
        [onActionClose d, onArtifactClose m a] \<Rightarrow>
          content (action d) = ''<boltArtifact id=\"a\" title=\"t\"><boltAction type=\"screen\">x''
      | _ \<Rightarrow> False)
   \<and> agree_from 31
        ''<boltArtifact id=\"a\" title=\"t\"><boltAction type=\"screen\">x</boltAction></boltArtifact>''
        ''<boltArtifact id=\"b\" title=\"t\"><boltAction type=\"screen\">x</boltAction></boltArtifact>''
   \<and> parse_state None ''m''
          (fst (parse_state None ''m'' newState
             ''<boltArtifact id=\"a\" title=\"t\"><boltAction type=\"screen\">''))
          ''<boltArtifact id=\"a\" title=\"t\"><boltAction type=\"screen\">x</boltAction></boltArtifact>''
     \<noteq> parse_state None ''m''
          (fst (parse_state None ''m'' newState
             ''<boltArtifact id=\"a\" title=\"t\"><boltAction type=\"screen\">''))
          ''<boltArtifact id=\"b\" title=\"t\"><boltAction type=\"screen\">x</boltAction></boltArtifact>''"
  by code_simp

text \<open>
  Claim C6, amended. For every call of \<^verbatim>\<open>parse\<close>, on any state of the message and any input,
  the position stored after the call is at least the position stored before it; this holds
  for a call that throws as well. When the call returns without throwing, the position it
  stores is the index its scan has reached (\<open>scanned_to\<close>), and the calls that come later,
  however many, throwing or not, read nothing before that index: on two sequences of later
  texts that agree from that index on, whatever stands before it, they end in the same
  state, fire the same callbacks and give the same results. So the text that a returning
  call has scanned is not processed or emitted again.
\<close>

theorem scanned_text_not_read_again:
  "position st \<le> position (fst (parse_state ae mid st input))
   \<and> (\<not> isl (snd (snd (parse_state ae mid st input)))
        \<and> list_all2 (agree_from (scanned_to ae mid st input)) later later' \<longrightarrow>
      position (fst (parse_state ae mid st input)) = scanned_to ae mid st input
      \<and> parse_all ae mid (fst (parse_state ae mid st input)) later
          = parse_all ae mid (fst (parse_state ae mid st input)) later')"
proof (intro conjI impI)
  show "position st \<le> position (fst (parse_state ae mid st input))"
    by (rule parse_state_position)
next
  assume a: "\<not> isl (snd (snd (parse_state ae mid st input)))
        \<and> list_all2 (agree_from (scanned_to ae mid st input)) later later'"
  then show "position (fst (parse_state ae mid st input)) = scanned_to ae mid st input"
    by (simp add: parse_state_scanned_to)
next
  assume a: "\<not> isl (snd (snd (parse_state ae mid st input)))
        \<and> list_all2 (agree_from (scanned_to ae mid st input)) later later'"
  then have "scanned_to ae mid st input \<le> position (fst (parse_state ae mid st input))"
    by (simp add: parse_state_scanned_to)
  moreover from a have "list_all2 (agree_from (scanned_to ae mid st input)) later later'" by simp
  ultimately show "parse_all ae mid (fst (parse_state ae mid st input)) later
          = parse_all ae mid (fst (parse_state ae mid st input)) later'"
    by (rule agree_parse_all)
qed

theorem scanned_text_not_read_again_witness:
  "position newState \<le> position (fst (parse_state None ''m'' newState ''ab<bold>''))
   \<and> position (fst (parse_state None ''m'' newState ''ab<bold>''))
       = scanned_to None ''m'' newState ''ab<bold>''
   \<and> scanned_to None ''m'' newState ''ab<bold>'' = 8
   \<and> parse_all None ''m'' (fst (parse_state None ''m'' newState ''ab<bold>''))
        [''ab<bold>c</bold><boltArtifact id=\"a\" title=\"t\"><boltAction type=\"shell\">ls'']
     = parse_all None ''m'' (fst (parse_state None ''m'' newState ''ab<bold>''))
        [''XYZ!!!!!c</bold><boltArtifact id=\"a\" title=\"t\"><boltAction type=\"shell\">ls'']"
proof -
  let ?x = "''ab<bold>''"
  let ?ys = "[''ab<bold>c</bold><boltArtifact id=\"a\" title=\"t\"><boltAction type=\"shell\">ls'']"
  let ?zs = "[''XYZ!!!!!c</bold><boltArtifact id=\"a\" title=\"t\"><boltAction type=\"shell\">ls'']"
  have h1: "\<not> isl (snd (snd (parse_state None ''m'' newState ?x)))" by code_simp
  have h2: "list_all2 (agree_from (scanned_to None ''m'' newState ?x)) ?ys ?zs" by code_simp
  have h3: "scanned_to None ''m'' newState ?x = 8" by code_simp
  note t = scanned_text_not_read_again
    [where st = newState and ae = None and mid = "''m''" and input = ?x and later = ?ys and later' = ?zs]
  from t have a: "position newState \<le> position (fst (parse_state None ''m'' newState ?x))"
    by (rule conjunct1)
  from t h1 h2 have b: "position (fst (parse_state None ''m'' newState ?x))
       = scanned_to None ''m'' newState ?x
     \<and> parse_all None ''m'' (fst (parse_state None ''m'' newState ?x)) ?ys
       = parse_all None ''m'' (fst (parse_state None ''m'' newState ?x)) ?zs"
    by blast
  from a b h3 show ?thesis by blast
qed

subsection \<open>The quick-actions block in a split text\<close>

text \<open>
  Claim C2. The claim: when the text at the cursor begins with \<^verbatim>\<open><bolt-quick-actions>\<close> and
  the close marker is not yet in the text, \<^verbatim>\<open>parse\<close> leaves the cursor where it is, emits
  nothing and waits. The code does not wait: without the close marker the first branch of
  the loop body falls through to the rest of the body, which treats the marker as plain
  text. On a fresh parser and the text \<^verbatim>\<open><bolt-quick-actions>\<close> the call returns the twenty
  characters of the marker as output and stores the position 20.
\<close>

theorem quick_actions_without_close_pass_through:
  "(case parse None Map.empty ''m'' ''<bolt-quick-actions>'' of
      (messages, fired, r) \<Rightarrow> (map_option position (messages ''m''), fired, r))
   = (Some 20, [], Inr ''<bolt-quick-actions>'')"
  by code_simp

text \<open>
  Claim C1. The claim: for a text \<open>T\<close> of well-formed tags and any split point \<open>k\<close>,
  \<^verbatim>\<open>parse(id, T[0:k])\<close> followed by \<^verbatim>\<open>parse(id, T)\<close> gives, concatenated, the output of one
  \<^verbatim>\<open>parse(id, T)\<close> on a fresh parser. The code breaks this on a quick-actions block that is
  split: with \<open>T\<close> the block of one quick action and \<open>k = 20\<close>, the first call emits the open
  marker as text, the second call emits the rest of the block as text, and the single call
  emits the group of buttons.
\<close>

theorem quick_actions_split_not_resumed:
  "(case parse None Map.empty ''m''
           (take 20 ''<bolt-quick-actions><bolt-quick-action type=\"message\" message=\"Hi\">Say hi</bolt-quick-action></bolt-quick-actions>'') of
      (messages, fired, r) \<Rightarrow>
        (r, snd (snd (parse None messages ''m''
           ''<bolt-quick-actions><bolt-quick-action type=\"message\" message=\"Hi\">Say hi</bolt-quick-action></bolt-quick-actions>''))))
   = (Inr ''<bolt-quick-actions>'',
      Inr ''<bolt-quick-action type=\"message\" message=\"Hi\">Say hi</bolt-quick-action></bolt-quick-actions>'')
   \<and> snd (snd (parse None Map.empty ''m''
         ''<bolt-quick-actions><bolt-quick-action type=\"message\" message=\"Hi\">Say hi</bolt-quick-action></bolt-quick-actions>''))
     = Inr ''<div class=\"__boltQuickAction__\" data-bolt-quick-action=\"true\"><button class=\"__boltQuickAction__\" data-bolt-quick-action=\"true\" data-type=\"message\" data-message=\"Hi\" data-path=\"\" data-href=\"\">Say hi</button></div>''"
  by code_simp

subsection \<open>A file action without a path\<close>

text \<open>
  Claim C3. The claim: a file action tag with no \<^verbatim>\<open>filePath\<close> does not make \<^verbatim>\<open>parse\<close> throw,
  and its content is delivered on close. The tag itself is accepted (the third conjunct:
  the action is built with no path), but the code then calls \<^verbatim>\<open>filePath.endsWith\<close> on the
  undefined path, both when it closes the action and when it streams partial content: the
  call throws a \<^verbatim>\<open>TypeError\<close>, and no close callback fires.
\<close>

theorem file_action_without_path_throws:
  "(case parse None Map.empty ''m''
      ''<boltArtifact id=\"a\" title=\"t\"><boltAction type=\"file\">data</boltAction></boltArtifact>'' of
      (messages, fired, r) \<Rightarrow> (r, map (\<lambda>e. case e of onActionClose d \<Rightarrow> True | _ \<Rightarrow> False) fired))
   = (Inl TypeError, [False, False])
   \<and> snd (snd (parse None Map.empty ''m'' ''<boltArtifact id=\"a\" title=\"t\"><boltAction type=\"file\">da'')) = Inl TypeError
   \<and> parseActionTag ''<boltAction type=\"file\">'' 0 23 = Inr (emptyAction\<lparr>type := Some ''file''\<rparr>)"
  by code_simp

subsection \<open>Action tags that throw\<close>






subsection \<open>JSON attributes\<close>





subsection \<open>Code fences in file content\<close>








subsection \<open>Text that looks like an artifact tag\<close>

lemma drop_Cons_nth:
  "drop j input = a # rest \<Longrightarrow> j < length input \<and> input ! j = a \<and> drop (Suc j) input = rest"
  by (metis Cons_nth_drop_Suc drop_eq_Nil linorder_not_less list.discI list.inject)

lemma scanTag_skip:
  "prefix (q @ p) ARTIFACT_TAG_OPEN \<Longrightarrow> q @ p \<noteq> ARTIFACT_TAG_OPEN \<Longrightarrow> drop j input = p @ rest \<Longrightarrow>
   scanTag input j q = scanTag input (j + length p) (q @ p)"
proof (induction p arbitrary: q j)
  case Nil
  then show ?case by simp
next
  case (Cons a p)
  from drop_Cons_nth [of j input a "p @ rest"] Cons.prems(3)
  have j: "j < length input" "input ! j = a" "drop (Suc j) input = p @ rest" by auto
  have pre: "prefix (q @ [a]) ARTIFACT_TAG_OPEN"
    using Cons.prems(1) by (metis append.assoc append_Cons append_Nil prefix_order.dual_order.trans prefixI)
  have lenlt: "length (q @ a # p) < length ARTIFACT_TAG_OPEN"
    using Cons.prems(1,2) by (metis le_neq_implies_less prefix_length_le prefix_length_prefix prefix_order.eq_iff order_refl)
  then have lenq: "length q < length ARTIFACT_TAG_OPEN" by simp
  have neq: "q @ [a] \<noteq> ARTIFACT_TAG_OPEN"
  proof
    assume "q @ [a] = ARTIFACT_TAG_OPEN"
    then have "length (q @ [a]) = length ARTIFACT_TAG_OPEN" by simp
    with lenlt show False by simp
  qed
  have "scanTag input j q = scanTag input (Suc j) (q @ [a])"
    using j lenq pre neq by (subst scanTag.simps) (simp add: Let_def)
  also have "\<dots> = scanTag input (Suc j + length p) ((q @ [a]) @ p)"
    by (rule Cons.IH) (use Cons.prems j in auto)
  finally show ?case by simp
qed

lemma drop_append_shift: "drop i input = p @ x \<Longrightarrow> drop (i + length p) input = x"
  by (metis add.commute append_eq_conv_conj drop_drop)

lemma scanTag_matched:
  assumes "drop i input = ARTIFACT_TAG_OPEN @ rest"
  shows "scanTag input i [] = Matched (i + 12)"
proof -
  define p where "p = ''<boltArtifac''"
  have L: "length p = 12" by (simp add: p_def)
  have d: "drop i input = p @ (CHR ''t'' # rest)"
    using assms by (simp add: ARTIFACT_TAG_OPEN_def p_def)
  have "scanTag input i [] = scanTag input (i + length p) ([] @ p)"
    by (rule scanTag_skip [OF _ _ d]) (simp_all add: ARTIFACT_TAG_OPEN_def p_def)
  then have s: "scanTag input i [] = scanTag input (i + 12) p"
    by (simp only: L append_Nil)
  have "drop (i + 12) input = CHR ''t'' # rest"
    using drop_append_shift [OF d] by (simp only: L)
  from drop_Cons_nth [OF this] show ?thesis
    unfolding s by (subst scanTag.simps) (simp add: Let_def ARTIFACT_TAG_OPEN_def p_def)
qed

lemma scanTag_mismatched:
  assumes "drop i input = p @ c # rest" and "strict_prefix p ARTIFACT_TAG_OPEN"
    and "\<not> prefix (p @ [c]) ARTIFACT_TAG_OPEN"
  shows "scanTag input i [] = Mismatched (i + length p)"
proof -
  from assms(2) have pre: "prefix p ARTIFACT_TAG_OPEN" and pne: "p \<noteq> ARTIFACT_TAG_OPEN"
    by (auto simp: strict_prefix_def)
  have len: "length p < length ARTIFACT_TAG_OPEN"
    using assms(2) by (metis prefix_length_less)
  have "scanTag input i [] = scanTag input (i + length p) ([] @ p)"
    by (rule scanTag_skip [OF _ _ assms(1)]) (use pre pne in simp_all)
  then have s: "scanTag input i [] = scanTag input (i + length p) p" by simp
  from drop_Cons_nth [OF drop_append_shift [OF assms(1)]]
  have j: "i + length p < length input" "input ! (i + length p) = c" by auto
  have "p @ [c] \<noteq> ARTIFACT_TAG_OPEN" using assms(3) by auto
  with j len assms(3) show ?thesis
    unfolding s by (subst scanTag.simps) (simp add: Let_def)
qed

lemma quickActionsBlock_needs_lt:
  "drop i input = c # rest \<Longrightarrow> c \<noteq> CHR ''<'' \<Longrightarrow> quickActionsBlock input i = None"
  by (simp add: quickActionsBlock_def startsWith_def BOLT_QUICK_ACTIONS_OPEN_def)

lemma passthrough_step:
  assumes "\<not> insideArtifact st" and "drop i input = c # rest" and "c \<noteq> CHR ''<''"
  shows "parse_step ae mid input st i = Continue st (i + 1) [c] []"
proof -
  from drop_Cons_nth [OF assms(2)] have "charAt input i = Some c"
    by (simp add: charAt_def)
  with assms quickActionsBlock_needs_lt [OF assms(2,3)] show ?thesis
    by (simp add: parse_step_def)
qed

lemma parse_loop_continue:
  "parse_step ae mid input st i = Continue s1 i1 o1 e1 \<Longrightarrow> i < length input \<Longrightarrow>
   parse_loop ae mid input st i out f = parse_loop ae mid input s1 i1 (out @ o1) (f @ e1)"
  by (simp add: parse_loop.simps [of ae mid input st i])

text \<open>
  Claim C10, as stated, covers every \<^verbatim>\<open><\<close> outside an artifact whose text diverges from
  \<^verbatim>\<open><boltArtifact\<close> partway. A complete quick-actions block is such a text (it diverges at
  its sixth character), and it is not emitted verbatim: the first branch of the loop body
  replaces it by the markup of its buttons.
\<close>

theorem quick_actions_block_not_verbatim:
  "snd (snd (parse_state None ''m'' newState ''<bolt-quick-actions></bolt-quick-actions>''))
   = Inr ''<div class=\"__boltQuickAction__\" data-bolt-quick-action=\"true\"></div>''
   \<and> strict_prefix ''<bolt'' ARTIFACT_TAG_OPEN
   \<and> \<not> prefix ''<bolt-'' ARTIFACT_TAG_OPEN"
  by code_simp

text \<open>
  Claim C10, amended. Let the loop be at any index \<open>i\<close>, outside any artifact, with any output
  and callbacks so far, and let the text at \<open>i\<close> not begin with the quick-actions open marker.
  If the text at \<open>i\<close> is \<^verbatim>\<open><boltArtifact\<close> followed by a character that is neither \<^verbatim>\<open>>\<close> nor
  a space, let \<open>txt\<close> be \<^verbatim>\<open><boltArtifact\<close>. If the text at \<open>i\<close> follows \<^verbatim>\<open><boltArtifact\<close> for one
  character or more and then diverges, let \<open>txt\<close> be that text together with the character at
  which it diverges. Then the loop appends \<open>txt\<close> to the output verbatim and goes on right
  after it, with the state as it was, so that no artifact is opened, and with no callback
  fired. This is one iteration, except for \<^verbatim>\<open></\<close>, which takes two. What comes after \<open>txt\<close>, a
  further \<^verbatim>\<open><\<close> included, is left to the iterations that follow. The quick-actions open
  marker is left out whether its close marker is present or not: nothing is said here of
  what \<^verbatim>\<open>parse\<close> does with the marker alone.
\<close>

theorem lookalike_passes_through:
  assumes "\<not> insideArtifact st" and "\<not> startsWith input BOLT_QUICK_ACTIONS_OPEN i"
    and "drop i input = txt @ rest"
    and "(txt = ARTIFACT_TAG_OPEN \<and> rest \<noteq> [] \<and> hd rest \<noteq> CHR ''>'' \<and> hd rest \<noteq> CHR '' '')
         \<or> (\<exists>p c. txt = p @ [c] \<and> p \<noteq> [] \<and> strict_prefix p ARTIFACT_TAG_OPEN
                   \<and> \<not> prefix (p @ [c]) ARTIFACT_TAG_OPEN)"
  shows "(txt \<noteq> ''</'' \<longrightarrow> parse_step ae mid input st i = Continue st (i + length txt) txt [])
         \<and> parse_loop ae mid input st i out f
             = parse_loop ae mid input st (i + length txt) (out @ txt) f"
proof -
  have q: "quickActionsBlock input i = None"
    using assms(2) by (simp add: quickActionsBlock_def)
  have one: "parse_loop ae mid input st i out f = parse_loop ae mid input st (i + length txt) (out @ txt) f"
    if "parse_step ae mid input st i = Continue st (i + length txt) txt []" and "i < length input"
  proof -
    have "parse_loop ae mid input st i out f = parse_loop ae mid input st (i + length txt) (out @ txt) (f @ [])"
      using that by (rule parse_loop_continue)
    then show ?thesis by simp
  qed
  from assms(4) show ?thesis
  proof (elim disjE exE conjE)
    assume t: "txt = ARTIFACT_TAG_OPEN" and r: "rest \<noteq> []" and c: "hd rest \<noteq> CHR ''>''" "hd rest \<noteq> CHR '' ''"
    from r obtain c0 rest' where rc: "rest = c0 # rest'" by (cases rest) auto
    with c have c': "c0 \<noteq> CHR ''>''" "c0 \<noteq> CHR '' ''" by simp_all
    from assms(3) t rc have d: "drop i input = ARTIFACT_TAG_OPEN @ c0 # rest'" by simp
    from d have d0: "drop i input = CHR ''<'' # (''boltArtifact'' @ c0 # rest')"
      by (simp add: ARTIFACT_TAG_OPEN_def)
    from drop_Cons_nth [OF d0] have c0: "charAt input i = Some CHR ''<''" and il: "i < length input"
      by (simp_all add: charAt_def)
    from drop_Cons_nth [OF d0] have "drop (i + 1) input = CHR ''b'' # (''oltArtifact'' @ c0 # rest')" by simp
    from drop_Cons_nth [OF this] have c1: "charAt input (i + 1) = Some CHR ''b''" by (simp add: charAt_def)
    have m: "scanTag input i [] = Matched (i + 12)" using d by (rule scanTag_matched)
    have L13: "length ARTIFACT_TAG_OPEN = 13" by (simp add: ARTIFACT_TAG_OPEN_def)
    have d13: "drop (i + 13) input = c0 # rest'"
      using drop_append_shift [OF d] by (simp only: L13)
    from drop_Cons_nth [OF this] have c13': "charAt input (i + 13) = Some c0"
      by (simp_all only: charAt_def if_True)
    have e13: "i + 12 + 1 = i + 13" by simp
    have c13: "charAt input (i + 12 + 1) = Some c0"
      using c13' by (simp_all only: e13)
    have sl: "slice input i (i + 12 + 1) = ARTIFACT_TAG_OPEN"
      using d by (simp add: slice_def ARTIFACT_TAG_OPEN_def)
    have "openTagStep ae mid input st i = Continue st (i + 12 + 1) ARTIFACT_TAG_OPEN []"
      unfolding openTagStep_def m scan.case Let_def c13 sl using c' by simp
    then have "parse_step ae mid input st i = Continue st (i + 13) ARTIFACT_TAG_OPEN []"
      using assms(1) q c0 c1 by (simp add: parse_step_def e13)
    then have s: "parse_step ae mid input st i = Continue st (i + length txt) txt []"
      by (simp only: t L13)
    with one [OF s il] show ?thesis by simp
  next
    fix p c
    assume t: "txt = p @ [c]" and p: "p \<noteq> []" "strict_prefix p ARTIFACT_TAG_OPEN"
      and np: "\<not> prefix (p @ [c]) ARTIFACT_TAG_OPEN"
    from assms(3) t have d: "drop i input = p @ c # rest" by simp
    from p obtain p' where p': "p = CHR ''<'' # p'"
      by (cases p) (auto simp: strict_prefix_def ARTIFACT_TAG_OPEN_def)
    from d p' have d0: "drop i input = CHR ''<'' # (p' @ c # rest)" by simp
    from drop_Cons_nth [OF d0] have c0: "charAt input i = Some CHR ''<''" and il: "i < length input"
      and d1: "drop (i + 1) input = p' @ c # rest" by (simp_all add: charAt_def)
    have lt: "length txt = length p + 1" using t by simp
    show ?thesis
    proof (cases "charAt input (i + 1) = Some CHR ''/''")
      case True
      with d1 have p'e: "p' = []"
        using p(2) p' drop_Cons_nth [of "i + 1" input]
        by (cases p') (auto simp: charAt_def strict_prefix_def ARTIFACT_TAG_OPEN_def split: if_splits)
      with d1 True drop_Cons_nth [of "i + 1" input c rest] have ce: "c = CHR ''/''"
        by (auto simp: charAt_def split: if_splits)
      from p' p'e ce t have te: "txt = ''</''" by simp
      have s1: "parse_step ae mid input st i = Continue st (i + 1) ''<'' []"
        using assms(1) q c0 True by (simp add: parse_step_def)
      from d1 p'e ce have d1': "drop (i + 1) input = CHR ''/'' # rest" by simp
      have s2: "parse_step ae mid input st (i + 1) = Continue st (i + 1 + 1) ''/'' []"
        by (rule passthrough_step [OF assms(1) d1']) simp
      from drop_Cons_nth [OF d1'] have il1: "i + 1 < length input" by simp
      have "parse_loop ae mid input st i out f = parse_loop ae mid input st (i + 1) (out @ ''<'') (f @ [])"
        using s1 il by (rule parse_loop_continue)
      also have "\<dots> = parse_loop ae mid input st (i + 1 + 1) ((out @ ''<'') @ ''/'') ((f @ []) @ [])"
        using s2 il1 by (rule parse_loop_continue)
      finally show ?thesis using te by simp
    next
      case False
      have m: "scanTag input i [] = Mismatched (i + length p)"
        using d p(2) np by (rule scanTag_mismatched)
      have sl: "slice input i (i + length p + 1) = p @ [c]"
        using d by (simp add: slice_def)
      have "parse_step ae mid input st i = Continue st (i + length p + 1) (p @ [c]) []"
        using assms(1) q c0 False m sl by (simp add: parse_step_def openTagStep_def)
      then have s: "parse_step ae mid input st i = Continue st (i + length txt) txt []"
        using t by (simp add: add.assoc)
      with one [OF s il] show ?thesis by simp
    qed
  qed
qed

theorem lookalike_passes_through_witness:
  "parse_step None ''m'' ''hi <boltArtifactX attr=\"v\"> <bold>x</bold>'' newState 3
     = Continue newState (3 + length ''<boltArtifact'') ''<boltArtifact'' []
   \<and> parse_loop None ''m'' ''hi <boltArtifactX attr=\"v\"> <bold>x</bold>'' newState 3 ''hi '' []
     = parse_loop None ''m'' ''hi <boltArtifactX attr=\"v\"> <bold>x</bold>'' newState
         (3 + length ''<boltArtifact'') (''hi '' @ ''<boltArtifact'') []
   \<and> parse_loop None ''m'' ''hi <boltArtifactX attr=\"v\"> <bold>x</bold>'' newState 35
         ''hi <boltArtifactX attr=\"v\"> <bold>x'' []
     = parse_loop None ''m'' ''hi <boltArtifactX attr=\"v\"> <bold>x</bold>'' newState
         (35 + length ''</'') (''hi <boltArtifactX attr=\"v\"> <bold>x'' @ ''</'') []
   \<and> parse_state None ''m'' newState ''hi <boltArtifactX attr=\"v\"> <bold>x</bold>''
     = (newState\<lparr>position := 42\<rparr>, [], Inr ''hi <boltArtifactX attr=\"v\"> <bold>x</bold>'')"
proof -
  let ?T = "''hi <boltArtifactX attr=\"v\"> <bold>x</bold>''"
  have h1: "\<not> insideArtifact newState" by (simp add: newState_def)
  have h2: "\<not> startsWith ?T BOLT_QUICK_ACTIONS_OPEN 3" by code_simp
  have h3: "drop 3 ?T = ''<boltArtifact'' @ ''X attr=\"v\"> <bold>x</bold>''" by code_simp
  have "''<boltArtifact'' = ARTIFACT_TAG_OPEN \<and> ''X attr=\"v\"> <bold>x</bold>'' \<noteq> []
      \<and> hd ''X attr=\"v\"> <bold>x</bold>'' \<noteq> CHR ''>'' \<and> hd ''X attr=\"v\"> <bold>x</bold>'' \<noteq> CHR '' ''"
    by code_simp
  then have h4: "(''<boltArtifact'' = ARTIFACT_TAG_OPEN \<and> ''X attr=\"v\"> <bold>x</bold>'' \<noteq> []
      \<and> hd ''X attr=\"v\"> <bold>x</bold>'' \<noteq> CHR ''>'' \<and> hd ''X attr=\"v\"> <bold>x</bold>'' \<noteq> CHR '' '')
      \<or> (\<exists>p c. ''<boltArtifact'' = p @ [c] \<and> p \<noteq> [] \<and> strict_prefix p ARTIFACT_TAG_OPEN
                   \<and> \<not> prefix (p @ [c]) ARTIFACT_TAG_OPEN)"
    by (rule disjI1)
  have n: "''<boltArtifact'' \<noteq> ''</''" by simp
  from lookalike_passes_through [OF h1 h2 h3 h4, of None "''m''" "''hi ''" "[]"] n
  have a: "parse_step None ''m'' ?T newState 3
       = Continue newState (3 + length ''<boltArtifact'') ''<boltArtifact'' []
     \<and> parse_loop None ''m'' ?T newState 3 ''hi '' []
       = parse_loop None ''m'' ?T newState (3 + length ''<boltArtifact'') (''hi '' @ ''<boltArtifact'') []"
    by blast
  have g2: "\<not> startsWith ?T BOLT_QUICK_ACTIONS_OPEN 35" by code_simp
  have g3: "drop 35 ?T = ''</'' @ ''bold>''" by code_simp
  have "''</'' = ''<'' @ [CHR ''/''] \<and> ''<'' \<noteq> [] \<and> strict_prefix ''<'' ARTIFACT_TAG_OPEN
      \<and> \<not> prefix (''<'' @ [CHR ''/'']) ARTIFACT_TAG_OPEN"
    by code_simp
  then have g4: "(''</'' = ARTIFACT_TAG_OPEN \<and> ''bold>'' \<noteq> []
      \<and> hd ''bold>'' \<noteq> CHR ''>'' \<and> hd ''bold>'' \<noteq> CHR '' '')
      \<or> (\<exists>p c. ''</'' = p @ [c] \<and> p \<noteq> [] \<and> strict_prefix p ARTIFACT_TAG_OPEN
                   \<and> \<not> prefix (p @ [c]) ARTIFACT_TAG_OPEN)"
    by blast
  from lookalike_passes_through [OF h1 g2 g3 g4, of None "''m''" "''hi <boltArtifactX attr=\"v\"> <bold>x''" "[]"]
  have b: "parse_loop None ''m'' ?T newState 35 ''hi <boltArtifactX attr=\"v\"> <bold>x'' []
       = parse_loop None ''m'' ?T newState (35 + length ''</'')
           (''hi <boltArtifactX attr=\"v\"> <bold>x'' @ ''</'') []"
    by (rule conjunct2)
  have c: "parse_state None ''m'' newState ?T = (newState\<lparr>position := 42\<rparr>, [], Inr ?T)"
    by code_simp
  from a b c show ?thesis by blast
qed

subsection \<open>The branches of an iteration\<close>

lemma parse_step_cases:
  assumes "parse_step ae mid input st i = r"
  obtains (quick) markup i' where "r = Continue st i' markup []"
  | (unreachable) e where "r = Throw st e"
  | (inside) art where "r = insideActionStep mid input st art i"
      "insideArtifact st" "insideAction st" "currentArtifact st = Some art"
  | (outside) art where "r = outsideActionStep mid input st art i"
      "insideArtifact st" "\<not> insideAction st" "currentArtifact st = Some art"
  | (tag) "r = openTagStep ae mid input st i" "\<not> insideArtifact st"
  | (char) c where "r = Continue st (i + 1) c []"
proof (cases "quickActionsBlock input i")
  case (Some m)
  with assms quick show ?thesis by (cases m) (auto simp: parse_step_def)
next
  case None
  show ?thesis
  proof (cases "insideArtifact st")
    case True
    show ?thesis
    proof (cases "currentArtifact st")
      case n: None
      with assms None True unreachable show ?thesis by (auto simp: parse_step_def)
    next
      case (Some art)
      with assms None True inside [of art] outside [of art] show ?thesis
        by (cases "insideAction st") (auto simp: parse_step_def)
    qed
  next
    case False
    with assms None tag char show ?thesis
      by (auto simp: parse_step_def split: if_splits)
  qed
qed

subsection \<open>The order of the callbacks\<close>

text \<open>Document order, as an automaton over the callbacks: outside any artifact, inside an
  artifact, or inside an action of an artifact. An action callback must name the artifact
  that is open, and the close of an artifact must carry the artifact that was opened.\<close>

datatype phase = Outside | InArtifact BoltArtifactData | InAction BoltArtifactData

fun next_phase :: "phase \<Rightarrow> callback \<Rightarrow> phase option" where
  "next_phase Outside (onArtifactOpen m a) = Some (InArtifact a)"
| "next_phase (InArtifact a) (onActionOpen d) =
     (if artifactId d = artifact_id a then Some (InAction a) else None)"
| "next_phase (InAction a) (onActionStream d) =
     (if artifactId d = artifact_id a then Some (InAction a) else None)"
| "next_phase (InAction a) (onActionClose d) =
     (if artifactId d = artifact_id a then Some (InArtifact a) else None)"
| "next_phase (InArtifact a) (onArtifactClose m a') =
     (if a' = a then Some Outside else None)"
| "next_phase p e = None"

fun in_order :: "phase \<Rightarrow> callback list \<Rightarrow> phase option" where
  "in_order p [] = Some p"
| "in_order p (e # es) =
     (case next_phase p e of None \<Rightarrow> None | Some p' \<Rightarrow> in_order p' es)"

definition phase_of :: "MessageState \<Rightarrow> phase" where
  "phase_of st =
     (if insideArtifact st then
        (case currentArtifact st of
           None \<Rightarrow> Outside
         | Some a \<Rightarrow> if insideAction st then InAction a else InArtifact a)
      else Outside)"

definition consistent :: "MessageState \<Rightarrow> bool" where
  "consistent st =
     ((insideArtifact st \<longrightarrow> currentArtifact st \<noteq> None) \<and> (insideAction st \<longrightarrow> insideArtifact st))"

lemma in_order_append:
  "in_order p (xs @ ys) = (case in_order p xs of None \<Rightarrow> None | Some q \<Rightarrow> in_order q ys)"
  by (induction xs arbitrary: p) (auto split: option.splits)

lemma insideActionStep_order:
  assumes "insideArtifact st" "insideAction st" "currentArtifact st = Some art"
  shows "insideActionStep mid input st art i = Continue s1 i1 o1 e1 \<Longrightarrow>
           in_order (phase_of st) e1 = Some (phase_of s1) \<and> consistent s1"
    and "insideActionStep mid input st art i = Break e1 \<Longrightarrow>
           in_order (phase_of st) e1 = Some (phase_of st)"
  using assms
  by (auto simp: insideActionStep_def Let_def phase_of_def consistent_def
      split: option.splits if_splits)

lemma outsideActionStep_order:
  assumes "insideArtifact st" "\<not> insideAction st" "currentArtifact st = Some art"
  shows "outsideActionStep mid input st art i = Continue s1 i1 o1 e1 \<Longrightarrow>
           in_order (phase_of st) e1 = Some (phase_of s1) \<and> consistent s1"
    and "outsideActionStep mid input st art i = Break e1 \<Longrightarrow>
           in_order (phase_of st) e1 = Some (phase_of st)"
  using assms
  by (auto simp: outsideActionStep_def openAction_def closeArtifact_def phase_of_def consistent_def
      split: option.splits if_splits sum.splits)

lemma openTagStep_order:
  assumes "\<not> insideArtifact st" "consistent st"
  shows "openTagStep ae mid input st i = Continue s1 i1 o1 e1 \<Longrightarrow>
           in_order (phase_of st) e1 = Some (phase_of s1) \<and> consistent s1"
    and "openTagStep ae mid input st i = Break e1 \<Longrightarrow>
           in_order (phase_of st) e1 = Some (phase_of st)"
  using assms
  by (auto simp: openTagStep_def Let_def phase_of_def consistent_def
      split: option.splits if_splits scan.splits)

lemma parse_step_order:
  assumes c: "consistent st"
  shows "parse_step ae mid input st i = Continue s1 i1 o1 e1 \<Longrightarrow>
           in_order (phase_of st) e1 = Some (phase_of s1) \<and> consistent s1"
    and "parse_step ae mid input st i = Break e1 \<Longrightarrow>
           in_order (phase_of st) e1 = Some (phase_of st)"
proof -
  assume a: "parse_step ae mid input st i = Continue s1 i1 o1 e1"
  show "in_order (phase_of st) e1 = Some (phase_of s1) \<and> consistent s1"
    using a
  proof (cases rule: parse_step_cases)
    case (inside art) then show ?thesis using insideActionStep_order(1) by metis
  next
    case (outside art) then show ?thesis using outsideActionStep_order(1) by metis
  next
    case tag then show ?thesis using openTagStep_order(1) c by metis
  qed (use c in auto)
next
  assume a: "parse_step ae mid input st i = Break e1"
  show "in_order (phase_of st) e1 = Some (phase_of st)"
    using a
  proof (cases rule: parse_step_cases)
    case (inside art) then show ?thesis using insideActionStep_order(2) by metis
  next
    case (outside art) then show ?thesis using outsideActionStep_order(2) by metis
  next
    case tag then show ?thesis using openTagStep_order(2) c by metis
  qed auto
qed

lemma parse_loop_order:
  "consistent st \<Longrightarrow> parse_loop ae mid input st i out f = (s1, i1, f1, r1) \<Longrightarrow>
   \<exists>evs p. f1 = f @ evs \<and> in_order (phase_of st) evs = Some p
     \<and> (\<not> isl r1 \<longrightarrow> p = phase_of s1 \<and> consistent s1)"
proof (induction ae mid input st i out f rule: parse_loop.induct)
  case (1 ae mid input state i out0 fired)
  show ?case
  proof (cases "i < length input")
    case False
    with "1.prems" show ?thesis by (simp add: parse_loop.simps [of ae mid input state i])
  next
    case True
    show ?thesis
    proof (cases "parse_step ae mid input state i")
      case (Continue s2 i2 o2 e2)
      with True "1.prems" have l: "parse_loop ae mid input s2 i2 (out0 @ o2) (fired @ e2) = (s1, i1, f1, r1)"
        by (simp add: parse_loop.simps [of ae mid input state i])
      from parse_step_order(1) [OF "1.prems"(1) Continue]
      have o: "in_order (phase_of state) e2 = Some (phase_of s2)" and c: "consistent s2" by auto
      from "1.IH" [OF True Continue c l] obtain evs p where
        "f1 = (fired @ e2) @ evs" "in_order (phase_of s2) evs = Some p"
        "\<not> isl r1 \<longrightarrow> p = phase_of s1 \<and> consistent s1" by blast
      with o show ?thesis
        by (intro exI [of _ "e2 @ evs"] exI [of _ p]) (simp add: in_order_append)
    next
      case (Break e2)
      with True "1.prems" parse_step_order(2) [OF "1.prems"(1) Break] show ?thesis
        by (auto simp: parse_loop.simps [of ae mid input state i])
    next
      case (Throw s2 e)
      with True "1.prems" show ?thesis
        by (auto simp: parse_loop.simps [of ae mid input state i])
    qed
  qed
qed

lemma parse_state_order:
  assumes "consistent st" and "parse_state ae mid st input = (s1, f1, r1)"
  shows "\<exists>p. in_order (phase_of st) f1 = Some p \<and> (\<not> isl r1 \<longrightarrow> p = phase_of s1 \<and> consistent s1)"
proof -
  obtain s2 i2 f2 r2 where l: "parse_loop ae mid input st (position st) [] [] = (s2, i2, f2, r2)"
    by (cases "parse_loop ae mid input st (position st) [] []") auto
  from parse_loop_order [OF assms(1) l] obtain p where
    p: "in_order (phase_of st) f2 = Some p" "\<not> isl r2 \<longrightarrow> p = phase_of s2 \<and> consistent s2" by auto
  show ?thesis
  proof (cases r2)
    case (Inl e)
    with assms(2) l p show ?thesis by (auto simp: parse_state_def)
  next
    case (Inr out)
    with assms(2) l have "s1 = s2\<lparr>position := i2\<rparr>" "f1 = f2" "r1 = Inr out"
      by (auto simp: parse_state_def)
    with p Inr show ?thesis by (auto simp: phase_of_def consistent_def)
  qed
qed

lemma parse_all_order:
  "consistent st \<Longrightarrow> parse_all ae mid st inputs = (s1, fired, rs) \<Longrightarrow>
   list_all (\<lambda>r. \<not> isl r) (butlast rs) \<Longrightarrow>
   \<exists>p. in_order (phase_of st) fired = Some p
     \<and> (list_all (\<lambda>r. \<not> isl r) rs \<longrightarrow> p = phase_of s1 \<and> consistent s1)"
proof (induction inputs arbitrary: st s1 fired rs)
  case Nil
  then show ?case by simp
next
  case (Cons x xs)
  obtain s2 f2 r2 where a: "parse_state ae mid st x = (s2, f2, r2)"
    by (cases "parse_state ae mid st x") auto
  obtain s3 f3 r3 where b: "parse_all ae mid s2 xs = (s3, f3, r3)"
    by (cases "parse_all ae mid s2 xs") auto
  from Cons.prems(2) a b have e: "s1 = s3" "fired = f2 @ f3" "rs = r2 # r3" by auto
  from parse_state_order [OF Cons.prems(1) a] obtain p where
    p: "in_order (phase_of st) f2 = Some p" "\<not> isl r2 \<longrightarrow> p = phase_of s2 \<and> consistent s2" by auto
  show ?case
  proof (cases xs)
    case Nil
    with b have "f3 = []" "r3 = []" "s3 = s2" by auto
    with e p show ?thesis by auto
  next
    case (Cons y ys)
    with b have "r3 \<noteq> []" by (auto split: prod.splits)
    with Cons.prems(3) e have ok: "\<not> isl r2" and rest: "list_all (\<lambda>r. \<not> isl r) (butlast r3)"
      by auto
    with p have p2: "p = phase_of s2" "consistent s2" by auto
    from Cons.IH [OF p2(2) b rest] obtain q where
      "in_order (phase_of s2) f3 = Some q" "list_all (\<lambda>r. \<not> isl r) r3 \<longrightarrow> q = phase_of s3 \<and> consistent s3"
      by auto
    with p p2 e ok show ?thesis by (auto simp: in_order_append)
  qed
qed

text \<open>
  Claim C9, as stated, speaks of any sequence of calls. A call that throws on an action tag
  leaves \<^verbatim>\<open>insideAction\<close> set, with no action opened and the position not stored. The next
  call then closes an action that was never opened: the callbacks are artifact-open,
  action-close (with id \<^verbatim>\<open>-1\<close>), artifact-close, which is not document order.
\<close>

theorem callbacks_out_of_order_after_throw:
  "in_order Outside (fst (snd (parse_all None ''m'' newState
      [''<boltArtifact id=\"a\" title=\"t\"><boltAction type=\"screen\">'',
       ''<boltArtifact id=\"a\" title=\"t\"><boltAction type=\"screen\">x</boltAction></boltArtifact>''])))
   = None
   \<and> (case parse_all None ''m'' newState
      [''<boltArtifact id=\"a\" title=\"t\"><boltAction type=\"screen\">'',
       ''<boltArtifact id=\"a\" title=\"t\"><boltAction type=\"screen\">x</boltAction></boltArtifact>''] of
        (st, [onArtifactOpen m1 a1, onActionClose d, onArtifactClose m2 a2], [Inl e, Inr out]) \<Rightarrow>
          actionId' d = ''-1''
      | _ \<Rightarrow> False)"
  by code_simp

text \<open>
  Claim C9, amended. Across any sequence of calls of \<^verbatim>\<open>parse\<close> for one message, from the
  fresh state, in which no call before the last one throws, the callbacks fire in document
  order (\<open>in_order\<close>): artifact-open, then for each action its open, its streams and its
  close, each naming that artifact, before the next action opens, then the artifact-close
  with the same artifact. When the last call does not throw either, the order ends in the
  phase the state records.
\<close>

theorem callbacks_in_document_order:
  assumes "list_all (\<lambda>r. \<not> isl r) (butlast (snd (snd (parse_all ae mid newState inputs))))"
  shows "\<exists>p. in_order Outside (fst (snd (parse_all ae mid newState inputs))) = Some p
           \<and> (list_all (\<lambda>r. \<not> isl r) (snd (snd (parse_all ae mid newState inputs)))
                \<longrightarrow> p = phase_of (fst (parse_all ae mid newState inputs)))"
proof -
  obtain s1 fired rs where a: "parse_all ae mid newState inputs = (s1, fired, rs)"
    by (cases "parse_all ae mid newState inputs") auto
  have c: "consistent newState" by (simp add: consistent_def newState_def)
  have "phase_of newState = Outside" by (simp add: phase_of_def newState_def)
  with parse_all_order [OF c a] assms a show ?thesis by auto
qed

theorem callbacks_in_document_order_witness:
  "list_all (\<lambda>r. \<not> isl r) (butlast (snd (snd (parse_all None ''m'' newState
      [''<boltArtifact id=\"a\" title=\"t\"><boltAction type=\"file\" filePath=\"a.ts\">let x'',
       ''<boltArtifact id=\"a\" title=\"t\"><boltAction type=\"file\" filePath=\"a.ts\">let x = 1;</boltAction><boltAction type=\"shell\">ls</boltAction></boltArtifact>'']))))
   \<and> in_order Outside (fst (snd (parse_all None ''m'' newState
      [''<boltArtifact id=\"a\" title=\"t\"><boltAction type=\"file\" filePath=\"a.ts\">let x'',
       ''<boltArtifact id=\"a\" title=\"t\"><boltAction type=\"file\" filePath=\"a.ts\">let x = 1;</boltAction><boltAction type=\"shell\">ls</boltAction></boltArtifact>''])))
     = Some Outside"
proof -
  let ?inputs = "[''<boltArtifact id=\"a\" title=\"t\"><boltAction type=\"file\" filePath=\"a.ts\">let x'',
       ''<boltArtifact id=\"a\" title=\"t\"><boltAction type=\"file\" filePath=\"a.ts\">let x = 1;</boltAction><boltAction type=\"shell\">ls</boltAction></boltArtifact>'']"
  have h: "list_all (\<lambda>r. \<not> isl r) (butlast (snd (snd (parse_all None ''m'' newState ?inputs))))"
    by code_simp
  have a: "list_all (\<lambda>r. \<not> isl r) (snd (snd (parse_all None ''m'' newState ?inputs)))"
    by code_simp
  have p: "phase_of (fst (parse_all None ''m'' newState ?inputs)) = Outside" by code_simp
  from callbacks_in_document_order [OF h] a p
  have "in_order Outside (fst (snd (parse_all None ''m'' newState ?inputs))) = Some Outside"
    by auto
  with h show ?thesis by simp
qed

subsection \<open>Action ids\<close>

text \<open>The ids of the action-opens among a list of callbacks, in order.\<close>

definition opened_ids :: "callback list \<Rightarrow> string list" where
  "opened_ids fired = [actionId' d. onActionOpen d \<leftarrow> fired]"

definition digit_val :: "char \<Rightarrow> nat" where
  "digit_val c = (case map_of (zip ''0123456789'' [0, 1, 2, 3, 4, 5, 6, 7, 8, 9]) c of
                    Some v \<Rightarrow> v | None \<Rightarrow> 0)"

definition decimal_val :: "string \<Rightarrow> nat" where
  "decimal_val s = foldl (\<lambda>a c. 10 * a + digit_val c) 0 s"

lemma digit_val_nth: "k < 10 \<Longrightarrow> digit_val (''0123456789'' ! k) = k"
proof -
  assume "k < 10"
  then have "k \<in> {0, 1, 2, 3, 4, 5, 6, 7, 8, 9}" by auto
  then show ?thesis by (auto simp: digit_val_def)
qed

lemma decimal_val_decimal: "decimal_val (decimal n) = n"
proof (induction n rule: decimal.induct)
  case (1 n)
  show ?case
  proof (cases "n < 10")
    case True
    then show ?thesis
      by (subst decimal.simps) (simp add: decimal_val_def digit_val_nth)
  next
    case False
    have "decimal_val (decimal n) = 10 * decimal_val (decimal (n div 10)) + digit_val (''0123456789'' ! (n mod 10))"
      using False by (subst decimal.simps) (simp add: decimal_val_def)
    also have "\<dots> = 10 * (n div 10) + n mod 10"
      using "1.IH" [OF False] by (simp add: digit_val_nth)
    finally show ?thesis by simp
  qed
qed

lemma digit_nth_mem: "k < 10 \<Longrightarrow> ''0123456789'' ! k \<in> set ''0123456789''"
proof -
  assume "k < 10"
  then have "k \<in> {0, 1, 2, 3, 4, 5, 6, 7, 8, 9}" by auto
  then show ?thesis by auto
qed

lemma decimal_digits: "set (decimal n) \<subseteq> set ''0123456789'' \<and> decimal n \<noteq> []"
proof (induction n rule: decimal.induct)
  case (1 n)
  show ?case
  proof (cases "n < 10")
    case True
    then have "decimal n = [''0123456789'' ! n]" by (subst decimal.simps) simp
    with digit_nth_mem [OF True] show ?thesis by simp
  next
    case False
    then have d: "decimal n = decimal (n div 10) @ [''0123456789'' ! (n mod 10)]"
      by (subst decimal.simps) simp
    have "''0123456789'' ! (n mod 10) \<in> set ''0123456789''"
      by (rule digit_nth_mem) simp
    with "1.IH" [OF False] show ?thesis unfolding d by simp
  qed
qed

lemma String_inj: "String m = String n \<Longrightarrow> m = n"
proof -
  assume eq: "String m = String n"
  have neg: "CHR ''-'' # decimal a \<noteq> decimal b" for a b
    using decimal_digits [of b] by (cases "decimal b") auto
  have inj: "decimal a = decimal b \<Longrightarrow> a = b" for a b
    by (metis decimal_val_decimal)
  show ?thesis
  proof (cases "m < 0")
    case True
    show ?thesis
    proof (cases "n < 0")
      case n: True
      with True eq have "nat (- m) = nat (- n)" by (auto simp: String_def dest: inj)
      with True n show ?thesis by simp
    next
      case False
      with True eq neg show ?thesis by (auto simp: String_def)
    qed
  next
    case False
    show ?thesis
    proof (cases "n < 0")
      case True
      with False eq neg [of "nat (- n)" "nat m"] show ?thesis by (auto simp: String_def)
    next
      case n: False
      with False eq have "nat m = nat n" by (auto simp: String_def dest: inj)
      with False n show ?thesis by simp
    qed
  qed
qed

text \<open>The callbacks of one action are its action-open, the action-streams that follow it and
  the action-close that follows it. \<open>own_ids\<close> runs over a list of callbacks with the counter
  and the id of the action that is open, if there is one. An action-open must come when no
  action is open and carry the counter as a decimal string; it advances the counter and its
  id becomes the id of the open action. An action-stream or an action-close must come when
  an action is open and carry the id of that action's open; an action-close ends the
  action. The result is \<open>None\<close> as soon as a callback fails this.\<close>

fun id_step :: "int \<times> string option \<Rightarrow> callback \<Rightarrow> (int \<times> string option) option" where
  "id_step (n, cur) (onActionOpen d) =
     (if cur = None \<and> actionId' d = String n then Some (n + 1, Some (actionId' d)) else None)"
| "id_step (n, cur) (onActionStream d) =
     (if cur = Some (actionId' d) then Some (n, cur) else None)"
| "id_step (n, cur) (onActionClose d) =
     (if cur = Some (actionId' d) then Some (n, None) else None)"
| "id_step (n, cur) (onArtifactOpen m a) = Some (n, cur)"
| "id_step (n, cur) (onArtifactClose m a) = Some (n, cur)"

fun own_ids :: "int \<times> string option \<Rightarrow> callback list \<Rightarrow> (int \<times> string option) option" where
  "own_ids s [] = Some s"
| "own_ids s (e # es) = (case id_step s e of None \<Rightarrow> None | Some s' \<Rightarrow> own_ids s' es)"

text \<open>What the state of a message records of this: the counter, and inside an action the id
  of that action, which is the counter minus one.\<close>

definition ids_of :: "MessageState \<Rightarrow> int \<times> string option" where
  "ids_of st = (actionId st, if insideAction st then Some (String (actionId st - 1)) else None)"

lemma own_ids_append:
  "own_ids s (xs @ ys) = (case own_ids s xs of None \<Rightarrow> None | Some q \<Rightarrow> own_ids q ys)"
  by (induction xs arbitrary: s) (auto split: option.splits)

lemma own_ids_opened:
  "own_ids (n, c) es = Some (m, c') \<Longrightarrow> 0 \<le> n \<Longrightarrow>
   n \<le> m \<and> opened_ids es = map (\<lambda>k. String (int k)) [nat n..<nat m]"
proof (induction es arbitrary: n c)
  case Nil
  then show ?case by (simp add: opened_ids_def)
next
  case (Cons e es)
  show ?case
  proof (cases e)
    case (onActionOpen d)
    with Cons.prems have d: "actionId' d = String n"
      and r: "own_ids (n + 1, Some (actionId' d)) es = Some (m, c')"
      by (auto split: if_splits)
    from Cons.IH [OF r] Cons.prems(2)
    have m: "n + 1 \<le> m" and o: "opened_ids es = map (\<lambda>k. String (int k)) [nat (n + 1)..<nat m]"
      by auto
    have lt: "nat n < nat m" using m Cons.prems(2) by simp
    have su: "Suc (nat n) = nat (n + 1)" using Cons.prems(2) by simp
    have "[nat n..<nat m] = nat n # [nat (n + 1)..<nat m]"
      using upt_conv_Cons [OF lt] by (simp only: su)
    with d o m onActionOpen Cons.prems(2) show ?thesis by (simp add: opened_ids_def)
  next
    case (onActionStream d)
    with Cons.prems have r: "own_ids (n, c) es = Some (m, c')" by (auto split: if_splits)
    from Cons.IH [OF r Cons.prems(2)] onActionStream show ?thesis by (simp add: opened_ids_def)
  next
    case (onActionClose d)
    with Cons.prems have r: "own_ids (n, None) es = Some (m, c')" by (auto split: if_splits)
    from Cons.IH [OF r Cons.prems(2)] onActionClose show ?thesis by (simp add: opened_ids_def)
  next
    case (onArtifactOpen x y)
    with Cons.prems have r: "own_ids (n, c) es = Some (m, c')" by auto
    from Cons.IH [OF r Cons.prems(2)] onArtifactOpen show ?thesis by (simp add: opened_ids_def)
  next
    case (onArtifactClose x y)
    with Cons.prems have r: "own_ids (n, c) es = Some (m, c')" by auto
    from Cons.IH [OF r Cons.prems(2)] onArtifactClose show ?thesis by (simp add: opened_ids_def)
  qed
qed

lemma insideActionStep_own:
  assumes "insideArtifact st" "insideAction st" "currentArtifact st = Some art"
  shows "insideActionStep mid input st art i = Continue s1 i1 o1 e1 \<Longrightarrow>
           own_ids (ids_of st) e1 = Some (ids_of s1) \<and> consistent s1"
    and "insideActionStep mid input st art i = Break e1 \<Longrightarrow>
           own_ids (ids_of st) e1 = Some (ids_of st)"
    and "insideActionStep mid input st art i = Throw s1 e \<Longrightarrow> actionId s1 = actionId st"
  using assms
  by (auto simp: insideActionStep_def Let_def ids_of_def consistent_def
      split: option.splits if_splits)

lemma outsideActionStep_own:
  assumes "insideArtifact st" "\<not> insideAction st" "currentArtifact st = Some art"
  shows "outsideActionStep mid input st art i = Continue s1 i1 o1 e1 \<Longrightarrow>
           own_ids (ids_of st) e1 = Some (ids_of s1) \<and> consistent s1"
    and "outsideActionStep mid input st art i = Break e1 \<Longrightarrow>
           own_ids (ids_of st) e1 = Some (ids_of st)"
    and "outsideActionStep mid input st art i = Throw s1 e \<Longrightarrow> actionId s1 = actionId st"
  using assms
  by (auto simp: outsideActionStep_def openAction_def closeArtifact_def ids_of_def consistent_def
      split: option.splits if_splits sum.splits)

lemma openTagStep_own:
  assumes "\<not> insideArtifact st" "consistent st"
  shows "openTagStep ae mid input st i = Continue s1 i1 o1 e1 \<Longrightarrow>
           own_ids (ids_of st) e1 = Some (ids_of s1) \<and> consistent s1"
    and "openTagStep ae mid input st i = Break e1 \<Longrightarrow>
           own_ids (ids_of st) e1 = Some (ids_of st)"
    and "openTagStep ae mid input st i = Throw s1 e \<Longrightarrow> actionId s1 = actionId st"
  using assms
  by (auto simp: openTagStep_def Let_def ids_of_def consistent_def
      split: option.splits if_splits scan.splits)

lemma parse_step_own:
  assumes c: "consistent st"
  shows "parse_step ae mid input st i = Continue s1 i1 o1 e1 \<Longrightarrow>
           own_ids (ids_of st) e1 = Some (ids_of s1) \<and> consistent s1"
    and "parse_step ae mid input st i = Break e1 \<Longrightarrow>
           own_ids (ids_of st) e1 = Some (ids_of st)"
    and "parse_step ae mid input st i = Throw s1 e \<Longrightarrow> actionId s1 = actionId st"
proof -
  assume a: "parse_step ae mid input st i = Continue s1 i1 o1 e1"
  show "own_ids (ids_of st) e1 = Some (ids_of s1) \<and> consistent s1"
    using a
  proof (cases rule: parse_step_cases)
    case (inside art) then show ?thesis using insideActionStep_own(1) by metis
  next
    case (outside art) then show ?thesis using outsideActionStep_own(1) by metis
  next
    case tag then show ?thesis using openTagStep_own(1) c by metis
  qed (use c in auto)
next
  assume a: "parse_step ae mid input st i = Break e1"
  show "own_ids (ids_of st) e1 = Some (ids_of st)"
    using a
  proof (cases rule: parse_step_cases)
    case (inside art) then show ?thesis using insideActionStep_own(2) by metis
  next
    case (outside art) then show ?thesis using outsideActionStep_own(2) by metis
  next
    case tag then show ?thesis using openTagStep_own(2) c by metis
  qed auto
next
  assume a: "parse_step ae mid input st i = Throw s1 e"
  show "actionId s1 = actionId st"
    using a
  proof (cases rule: parse_step_cases)
    case (inside art) then show ?thesis using insideActionStep_own(3) by metis
  next
    case (outside art) then show ?thesis using outsideActionStep_own(3) by metis
  next
    case tag then show ?thesis using openTagStep_own(3) c by metis
  qed auto
qed

lemma parse_loop_own:
  "consistent st \<Longrightarrow> parse_loop ae mid input st i out f = (s1, i1, f1, r1) \<Longrightarrow>
   \<exists>evs q. f1 = f @ evs \<and> own_ids (ids_of st) evs = Some q \<and> fst q = actionId s1
     \<and> (\<not> isl r1 \<longrightarrow> q = ids_of s1 \<and> consistent s1)"
proof (induction ae mid input st i out f rule: parse_loop.induct)
  case (1 ae mid input state i out0 fired)
  show ?case
  proof (cases "i < length input")
    case False
    with "1.prems" show ?thesis
      by (simp add: parse_loop.simps [of ae mid input state i] ids_of_def)
  next
    case True
    show ?thesis
    proof (cases "parse_step ae mid input state i")
      case (Continue s2 i2 o2 e2)
      with True "1.prems" have l: "parse_loop ae mid input s2 i2 (out0 @ o2) (fired @ e2) = (s1, i1, f1, r1)"
        by (simp add: parse_loop.simps [of ae mid input state i])
      from parse_step_own(1) [OF "1.prems"(1) Continue]
      have o: "own_ids (ids_of state) e2 = Some (ids_of s2)" and c: "consistent s2" by auto
      from "1.IH" [OF True Continue c l] obtain evs q where
        "f1 = (fired @ e2) @ evs" "own_ids (ids_of s2) evs = Some q" "fst q = actionId s1"
        "\<not> isl r1 \<longrightarrow> q = ids_of s1 \<and> consistent s1" by blast
      with o show ?thesis
        by (intro exI [of _ "e2 @ evs"] exI [of _ q]) (simp add: own_ids_append)
    next
      case (Break e2)
      with True "1.prems" parse_step_own(2) [OF "1.prems"(1) Break] show ?thesis
        by (auto simp: parse_loop.simps [of ae mid input state i] ids_of_def)
    next
      case (Throw s2 e)
      with True "1.prems" parse_step_own(3) [OF "1.prems"(1) Throw] show ?thesis
        by (auto simp: parse_loop.simps [of ae mid input state i] ids_of_def)
    qed
  qed
qed

lemma parse_state_own:
  assumes "consistent st" and "parse_state ae mid st input = (s1, f1, r1)"
  shows "\<exists>q. own_ids (ids_of st) f1 = Some q \<and> fst q = actionId s1
           \<and> (\<not> isl r1 \<longrightarrow> q = ids_of s1 \<and> consistent s1)"
proof -
  obtain s2 i2 f2 r2 where l: "parse_loop ae mid input st (position st) [] [] = (s2, i2, f2, r2)"
    by (cases "parse_loop ae mid input st (position st) [] []") auto
  from parse_loop_own [OF assms(1) l] obtain evs q where
    ev: "f2 = [] @ evs" and q0: "own_ids (ids_of st) evs = Some q" "fst q = actionId s2"
       "\<not> isl r2 \<longrightarrow> q = ids_of s2 \<and> consistent s2" by blast
  from ev q0 have q: "own_ids (ids_of st) f2 = Some q" "fst q = actionId s2"
       "\<not> isl r2 \<longrightarrow> q = ids_of s2 \<and> consistent s2" by simp_all
  show ?thesis
  proof (cases r2)
    case (Inl e)
    with assms(2) l q show ?thesis by (auto simp: parse_state_def)
  next
    case (Inr out)
    with assms(2) l have "s1 = s2\<lparr>position := i2\<rparr>" "f1 = f2" "r1 = Inr out"
      by (auto simp: parse_state_def)
    with q Inr show ?thesis by (auto simp: ids_of_def consistent_def)
  qed
qed

lemma parse_all_own:
  "consistent st \<Longrightarrow> parse_all ae mid st inputs = (s1, fired, rs) \<Longrightarrow>
   list_all (\<lambda>r. \<not> isl r) (butlast rs) \<Longrightarrow>
   \<exists>q. own_ids (ids_of st) fired = Some q \<and> fst q = actionId s1
     \<and> (list_all (\<lambda>r. \<not> isl r) rs \<longrightarrow> q = ids_of s1 \<and> consistent s1)"
proof (induction inputs arbitrary: st s1 fired rs)
  case Nil
  then show ?case by (simp add: ids_of_def)
next
  case (Cons x xs)
  obtain s2 f2 r2 where a: "parse_state ae mid st x = (s2, f2, r2)"
    by (cases "parse_state ae mid st x") auto
  obtain s3 f3 r3 where b: "parse_all ae mid s2 xs = (s3, f3, r3)"
    by (cases "parse_all ae mid s2 xs") auto
  from Cons.prems(2) a b have e: "s1 = s3" "fired = f2 @ f3" "rs = r2 # r3" by auto
  from parse_state_own [OF Cons.prems(1) a] obtain q where
    q: "own_ids (ids_of st) f2 = Some q" "fst q = actionId s2"
       "\<not> isl r2 \<longrightarrow> q = ids_of s2 \<and> consistent s2" by blast
  show ?case
  proof (cases xs)
    case Nil
    with b have "f3 = []" "r3 = []" "s3 = s2" by auto
    with e q show ?thesis by auto
  next
    case (Cons y ys)
    with b have "r3 \<noteq> []" by (auto split: prod.splits)
    with Cons.prems(3) e have ok: "\<not> isl r2" and rest: "list_all (\<lambda>r. \<not> isl r) (butlast r3)"
      by auto
    with q have q2: "q = ids_of s2" "consistent s2" by auto
    from Cons.IH [OF q2(2) b rest] obtain q' where
      "own_ids (ids_of s2) f3 = Some q'" "fst q' = actionId s3"
      "list_all (\<lambda>r. \<not> isl r) r3 \<longrightarrow> q' = ids_of s3 \<and> consistent s3"
      by blast
    with q q2 e ok show ?thesis by (auto simp: own_ids_append)
  qed
qed

text \<open>
  Claim C8, as stated, speaks of every action of a message. A call that throws on an action
  tag leaves \<^verbatim>\<open>insideAction\<close> set and the position not stored, so the next call starts at the
  old position, inside an action that was never opened, and closes it with the counter
  minus one. Below, the first call opens and closes the shell action under the id \<^verbatim>\<open>0\<close> and
  throws on the screen tag. The second call fires a second action-close with the id \<^verbatim>\<open>0\<close>,
  for an action without type whose content is the text from index 0 on: two actions close
  under one id, and one of them was never opened. When the tag that throws is the first
  one of the message, the action-close of the next call carries \<^verbatim>\<open>-1\<close>, which no action-open
  carries.
\<close>

theorem action_closed_again_after_throw:
  "(case parse_all None ''m'' newState
      [''<boltArtifact id=\"a\" title=\"t\"><boltAction type=\"shell\">pwd</boltAction><boltAction type=\"screen\">'',
       ''<boltArtifact id=\"a\" title=\"t\"><boltAction type=\"shell\">pwd</boltAction><boltAction type=\"screen\">x</boltAction></boltArtifact>''] of
      (st, [onArtifactOpen m1 a1, onActionOpen d1, onActionClose d2, onActionClose d3], [Inl e1, Inl e2]) \<Rightarrow>
        actionId' d1 = ''0'' \<and> type (action d1) = Some ''shell''
        \<and> actionId' d2 = ''0'' \<and> content (action d2) = ''pwd''
        \<and> actionId' d3 = ''0'' \<and> type (action d3) = None
        \<and> content (action d3) = ''<boltArtifact id=\"a\" title=\"t\"><boltAction type=\"shell\">pwd''
    | _ \<Rightarrow> False)
   \<and> own_ids (0, None) (fst (snd (parse_all None ''m'' newState
      [''<boltArtifact id=\"a\" title=\"t\"><boltAction type=\"shell\">pwd</boltAction><boltAction type=\"screen\">'',
       ''<boltArtifact id=\"a\" title=\"t\"><boltAction type=\"shell\">pwd</boltAction><boltAction type=\"screen\">x</boltAction></boltArtifact>''])))
     = None
   \<and> (case parse_all None ''m'' newState
      [''<boltArtifact id=\"a\" title=\"t\"><boltAction type=\"screen\">'',
       ''<boltArtifact id=\"a\" title=\"t\"><boltAction type=\"screen\">x</boltAction></boltArtifact>''] of
      (st, [onArtifactOpen m1 a1, onActionClose d, onArtifactClose m2 a2], [Inl e, Inr out]) \<Rightarrow>
        actionId' d = ''-1''
    | _ \<Rightarrow> False)"
  by code_simp

text \<open>
  Claim C8, amended. Take any sequence of calls of \<^verbatim>\<open>parse\<close> for one message, from the fresh
  state, in which no call before the last one throws, and the callbacks fired, in order.
  They pass \<open>own_ids\<close> from the counter 0 with no action open: every action-stream and every
  action-close carries the id of the action-open of its own action, and every action-open
  carries the counter, which starts at 0 and advances by one with each action-open and
  ends at the counter stored in the state. So the ids of the action-opens are the decimal
  strings of \<open>0, 1, 2, \<dots>\<close> in document order, and they are pairwise distinct.
\<close>

theorem action_ids_of_own_open:
  assumes "list_all (\<lambda>r. \<not> isl r) (butlast (snd (snd (parse_all ae mid newState inputs))))"
  shows "\<exists>cur. own_ids (0, None) (fst (snd (parse_all ae mid newState inputs)))
             = Some (actionId (fst (parse_all ae mid newState inputs)), cur)
           \<and> opened_ids (fst (snd (parse_all ae mid newState inputs)))
             = map (\<lambda>k. String (int k)) [0..<nat (actionId (fst (parse_all ae mid newState inputs)))]
           \<and> distinct (opened_ids (fst (snd (parse_all ae mid newState inputs))))"
proof -
  obtain st' fired rs where a: "parse_all ae mid newState inputs = (st', fired, rs)"
    by (cases "parse_all ae mid newState inputs") auto
  have c: "consistent newState" by (simp add: consistent_def newState_def)
  have n: "ids_of newState = (0, None)" by (simp add: ids_of_def newState_def)
  from assms a have "list_all (\<lambda>r. \<not> isl r) (butlast rs)" by simp
  from parse_all_own [OF c a this] obtain q where
    "own_ids (ids_of newState) fired = Some q" "fst q = actionId st'" by blast
  with n have q: "own_ids (0, None) fired = Some q" "fst q = actionId st'" by simp_all
  then obtain cur where i: "own_ids (0, None) fired = Some (actionId st', cur)" by (cases q) auto
  from own_ids_opened [OF i] have o: "opened_ids fired = map (\<lambda>k. String (int k)) [0..<nat (actionId st')]"
    by simp
  have "inj_on (\<lambda>k. String (int k)) (set [0..<nat (actionId st')])"
    by (rule inj_onI) (auto dest: String_inj)
  then have "distinct (opened_ids fired)" unfolding o by (simp add: distinct_map)
  with i o a show ?thesis by simp
qed

theorem action_ids_of_own_open_witness:
  "own_ids (0, None) (fst (snd (parse_all None ''m'' newState
      [''<boltArtifact id=\"a\" title=\"t\"><boltAction type=\"file\" filePath=\"a.ts\">let x'',
       ''<boltArtifact id=\"a\" title=\"t\"><boltAction type=\"file\" filePath=\"a.ts\">let x = 1;</boltAction><boltAction type=\"shell\">ls</boltAction></boltArtifact>''])))
     = Some (2, None)
   \<and> opened_ids (fst (snd (parse_all None ''m'' newState
      [''<boltArtifact id=\"a\" title=\"t\"><boltAction type=\"file\" filePath=\"a.ts\">let x'',
       ''<boltArtifact id=\"a\" title=\"t\"><boltAction type=\"file\" filePath=\"a.ts\">let x = 1;</boltAction><boltAction type=\"shell\">ls</boltAction></boltArtifact>''])))
     = [''0'', ''1'']
   \<and> distinct (opened_ids (fst (snd (parse_all None ''m'' newState
      [''<boltArtifact id=\"a\" title=\"t\"><boltAction type=\"file\" filePath=\"a.ts\">let x'',
       ''<boltArtifact id=\"a\" title=\"t\"><boltAction type=\"file\" filePath=\"a.ts\">let x = 1;</boltAction><boltAction type=\"shell\">ls</boltAction></boltArtifact>'']))))"
proof -
  let ?inputs = "[''<boltArtifact id=\"a\" title=\"t\"><boltAction type=\"file\" filePath=\"a.ts\">let x'',
       ''<boltArtifact id=\"a\" title=\"t\"><boltAction type=\"file\" filePath=\"a.ts\">let x = 1;</boltAction><boltAction type=\"shell\">ls</boltAction></boltArtifact>'']"
  have h: "list_all (\<lambda>r. \<not> isl r) (butlast (snd (snd (parse_all None ''m'' newState ?inputs))))"
    by code_simp
  have e: "actionId (fst (parse_all None ''m'' newState ?inputs)) = 2" by code_simp
  have m: "map (\<lambda>k. String (int k)) [0..<nat 2] = [''0'', ''1'']" by code_simp
  have c: "own_ids (0, None) (fst (snd (parse_all None ''m'' newState ?inputs))) = Some (2, None)"
    by code_simp
  from action_ids_of_own_open [OF h]
  have "opened_ids (fst (snd (parse_all None ''m'' newState ?inputs))) = [''0'', ''1'']
      \<and> distinct (opened_ids (fst (snd (parse_all None ''m'' newState ?inputs))))"
    unfolding e m by blast
  with c show ?thesis by blast
qed

subsection \<open>Resumption away from the quick-actions block\<close>

text \<open>What an iteration does on a prefix of the text and goes on from, it does on the whole
  text: every search that succeeds on the prefix finds the same place in the text, and every
  iteration that lacks text to decide leaves the loop.\<close>

lemma prefix_take_iff: "prefix pat (take n s) \<longleftrightarrow> prefix pat s \<and> length pat \<le> n"
proof
  assume p: "prefix pat (take n s)"
  then have "prefix pat s" by (meson prefix_order.trans take_is_prefix)
  moreover from p have "length pat \<le> n" using prefix_length_le by fastforce
  ultimately show "prefix pat s \<and> length pat \<le> n" by simp
next
  assume "prefix pat s \<and> length pat \<le> n"
  then show "prefix pat (take n s)"
    by (metis append_eq_conv_conj prefix_def take_append take_all_iff
        append_take_drop_id min.absorb2 take_take prefixI)
qed

lemma indexOf0_take:
  "indexOf0 pat (take n s) = Some k \<Longrightarrow> indexOf0 pat s = Some k"
proof (induction s arbitrary: n k)
  case Nil
  then show ?case by simp
next
  case (Cons c cs)
  show ?case
  proof (cases n)
    case 0
    with Cons.prems show ?thesis by (simp split: if_splits)
  next
    case (Suc m)
    show ?thesis
    proof (cases "prefix pat (take n (c # cs))")
      case True
      then have "prefix pat (c # cs)" using prefix_take_iff by blast
      moreover from True Cons.prems have "k = 0" by (cases n) auto
      ultimately show ?thesis by simp
    next
      case False
      with Cons.prems Suc obtain k' where k': "indexOf0 pat (take m cs) = Some k'" "k = Suc k'"
        by auto
      from indexOf0_bound [OF k'(1)] have "length pat \<le> m" by simp
      moreover from False have "\<not> (prefix pat (c # cs) \<and> length pat \<le> n)"
        using prefix_take_iff [of pat n "c # cs"] by blast
      ultimately have "\<not> prefix pat (c # cs)" using Suc by simp
      with Cons.IH [OF k'(1)] k'(2) show ?thesis by simp
    qed
  qed
qed

lemma indexOf_take:
  assumes "indexOf (take n s) pat i = Some k" and "pat \<noteq> []"
  shows "indexOf s pat i = Some k"
proof -
  let ?m = "min i (length (take n s))"
  from assms obtain d where d: "indexOf0 pat (drop ?m (take n s)) = Some d" and k: "k = ?m + d"
    by (auto simp: indexOf_def Let_def)
  show ?thesis
  proof (cases "i \<le> length (take n s)")
    case True
    then have m: "?m = i" "min i (length s) = i" by auto
    have "drop i (take n s) = take (n - i) (drop i s)" by (simp add: drop_take)
    with d m have "indexOf0 pat (take (n - i) (drop i s)) = Some d" by simp
    from indexOf0_take [OF this] k m show ?thesis by (simp add: indexOf_def Let_def)
  next
    case False
    then have "drop ?m (take n s) = []" by (auto simp: min_def)
    with d assms(2) show ?thesis by (auto split: if_splits)
  qed
qed

lemma indexOf0_occurrence:
  "indexOf0 pat s = Some k \<Longrightarrow> prefix pat (drop k s)"
proof (induction s arbitrary: k)
  case Nil
  then show ?case by (simp split: if_splits)
next
  case (Cons c cs)
  then show ?case by (auto split: if_splits)
qed

lemma indexOf_occurrence:
  "indexOf s pat i = Some k \<Longrightarrow> prefix pat (drop k s)"
  by (auto simp: indexOf_def Let_def add.commute dest!: indexOf0_occurrence)

lemma indexOf0_found:
  "prefix pat (drop d s) \<Longrightarrow> d \<le> length s \<Longrightarrow> indexOf0 pat s \<noteq> None"
proof (induction s arbitrary: d)
  case Nil
  then show ?case by simp
next
  case (Cons c cs)
  show ?case
  proof (cases d)
    case 0
    with Cons.prems show ?thesis by simp
  next
    case (Suc d')
    with Cons.prems Cons.IH [of d'] show ?thesis by auto
  qed
qed

lemma indexOf_found:
  assumes "prefix pat (drop k s)" and "i \<le> k" and "k \<le> length s"
  shows "indexOf s pat i \<noteq> None"
proof -
  have m: "min i (length s) = i" using assms by simp
  have "drop (k - i) (drop i s) = drop k s" using assms by simp
  with assms have "prefix pat (drop (k - i) (drop i s))" by simp
  moreover have "k - i \<le> length (drop i s)" using assms by simp
  ultimately have "indexOf0 pat (drop i s) \<noteq> None" by (rule indexOf0_found)
  with m show ?thesis by (simp add: indexOf_def Let_def)
qed

text \<open>An occurrence in the whole text that the prefix does not show reaches beyond the prefix.\<close>

lemma occurrence_beyond:
  assumes "indexOf (take n s) pat i = None" and "prefix pat (drop k s)" and "i \<le> k"
    and "pat \<noteq> []"
  shows "n < k + length pat"
proof (rule ccontr)
  assume "\<not> n < k + length pat"
  then have le: "k + length pat \<le> n" by simp
  have "drop k (take n s) = take (n - k) (drop k s)" by (simp add: drop_take)
  with assms(2) le have p: "prefix pat (drop k (take n s))" by (simp add: prefix_take_iff)
  have "length pat \<le> length (drop k s)" using assms(2) by (rule prefix_length_le)
  then have "k \<le> length (take n s)"
    using le assms(4) by (cases pat) auto
  from indexOf_found [OF p assms(3) this] assms(1) show False by simp
qed

lemma slice_take: "b \<le> n \<Longrightarrow> slice (take n s) a b = slice s a b"
  by (simp add: slice_def drop_take min_def)

lemma charAt_take: "charAt (take n s) i = Some c \<Longrightarrow> charAt s i = Some c"
  by (auto simp: charAt_def split: if_splits)

lemma charAt_take_eq: "i < n \<Longrightarrow> charAt (take n s) i = charAt s i"
  by (auto simp: charAt_def)

lemma quickActionsBlock_absent:
  "\<not> startsWith input BOLT_QUICK_ACTIONS_OPEN i \<Longrightarrow> quickActionsBlock input i = None"
  by (simp add: quickActionsBlock_def)

lemma startsWith_take:
  "startsWith (take n s) pat i \<Longrightarrow> startsWith s pat i"
  by (auto simp: startsWith_def drop_take prefix_take_iff)

lemma parseActionTag_slice:
  "slice x a (b + 1) = slice y a (b + 1) \<Longrightarrow> parseActionTag x a b = parseActionTag y a b"
  by (simp add: parseActionTag_def)

lemma insideActionStep_take:
  assumes "insideActionStep mid (take n s) st art i = Continue s' i' out evs"
  shows "insideActionStep mid s st art i = Continue s' i' out evs"
proof -
  from assms obtain c where c: "indexOf (take n s) ARTIFACT_ACTION_TAG_CLOSE i = Some c"
    by (auto simp: insideActionStep_def split: option.splits if_splits)
  have c': "indexOf s ARTIFACT_ACTION_TAG_CLOSE i = Some c"
    using c by (rule indexOf_take) (simp add: ARTIFACT_ACTION_TAG_CLOSE_def)
  from indexOf_bounds [OF c] have "c \<le> n" by simp
  then have "slice (take n s) i c = slice s i c" by (rule slice_take)
  with assms c c' show ?thesis by (simp add: insideActionStep_def)
qed

lemma openAction_take:
  assumes "openAction mid (take n s) st art a = Continue s' i' out evs"
  shows "openAction mid s st art a = Continue s' i' out evs"
proof -
  from assms obtain e where e: "indexOf (take n s) ''>'' a = Some e"
    by (auto simp: openAction_def split: option.splits)
  have e': "indexOf s ''>'' a = Some e" using e by (rule indexOf_take) simp
  from indexOf_bounds [OF e] have "e + 1 \<le> n" by simp
  then have "slice (take n s) a (e + 1) = slice s a (e + 1)" by (rule slice_take)
  then have "parseActionTag (take n s) a e = parseActionTag s a e" by (rule parseActionTag_slice)
  with assms e e' show ?thesis by (simp add: openAction_def)
qed

lemma open_before_close:
  assumes a: "prefix ARTIFACT_ACTION_TAG_OPEN (drop a s)"
    and c: "prefix ARTIFACT_TAG_CLOSE (drop c s)"
    and le: "c \<le> a" and near: "a < c + 4"
  shows False
proof -
  from a obtain r where r: "drop a s = ''<boltAction'' @ r"
    by (auto simp: prefix_def ARTIFACT_ACTION_TAG_OPEN_def)
  from c obtain r' where r': "drop c s = ''</boltArtifact>'' @ r'"
    by (auto simp: prefix_def ARTIFACT_TAG_CLOSE_def)
  have "drop a s = drop (a - c) (drop c s)" using le by simp
  then have eq: "''<boltAction'' @ r = drop (a - c) (''</boltArtifact>'' @ r')"
    using r r' by simp
  from le near have "a - c = 0 \<or> a - c = 1 \<or> a - c = 2 \<or> a - c = 3" by auto
  then show False using eq by (elim disjE) simp_all
qed

lemma outsideActionStep_take:
  assumes "outsideActionStep mid (take n s) st art i = Continue s' i' out evs"
    and "i < length (take n s)"
  shows "outsideActionStep mid s st art i = Continue s' i' out evs"
proof -
  let ?P = "take n s"
  have ne: "ARTIFACT_ACTION_TAG_OPEN \<noteq> []" "ARTIFACT_TAG_CLOSE \<noteq> []"
    by (simp_all add: ARTIFACT_ACTION_TAG_OPEN_def ARTIFACT_TAG_CLOSE_def)
  have il: "i < length s" "i < n" using assms(2) by auto
  show ?thesis
  proof (cases "indexOf ?P ARTIFACT_ACTION_TAG_OPEN i")
    case None
    note ao = None
    show ?thesis
    proof (cases "indexOf ?P ARTIFACT_TAG_CLOSE i")
      case None
      with ao assms(1) show ?thesis by (simp add: outsideActionStep_def)
    next
      case (Some c)
      have c': "indexOf s ARTIFACT_TAG_CLOSE i = Some c" using Some ne(2) by (rule indexOf_take)
      from indexOf_bounds [OF Some] have cn: "c + length ARTIFACT_TAG_CLOSE \<le> n" by simp
      from ao Some assms(1) have r: "closeArtifact mid st art c = Continue s' i' out evs"
        by (simp add: outsideActionStep_def)
      show ?thesis
      proof (cases "indexOf s ARTIFACT_ACTION_TAG_OPEN i")
        case None
        with c' r show ?thesis by (simp add: outsideActionStep_def)
      next
        case (Some a')
        from indexOf_bounds [OF Some] il have "i \<le> a'" by simp
        from occurrence_beyond [OF ao indexOf_occurrence [OF Some] this ne(1)]
        have "n < a' + length ARTIFACT_ACTION_TAG_OPEN" .
        with cn have "\<not> a' < c"
          by (simp add: ARTIFACT_ACTION_TAG_OPEN_def ARTIFACT_TAG_CLOSE_def)
        with Some c' r show ?thesis by (simp add: outsideActionStep_def)
      qed
    qed
  next
    case (Some a)
    note ao = Some
    have a': "indexOf s ARTIFACT_ACTION_TAG_OPEN i = Some a" using Some ne(1) by (rule indexOf_take)
    from indexOf_bounds [OF Some] have an: "a + length ARTIFACT_ACTION_TAG_OPEN \<le> n" by simp
    show ?thesis
    proof (cases "indexOf ?P ARTIFACT_TAG_CLOSE i")
      case (Some c)
      have c': "indexOf s ARTIFACT_TAG_CLOSE i = Some c" using Some ne(2) by (rule indexOf_take)
      from ao Some assms(1)
      have r: "(if a < c then openAction mid ?P st art a else closeArtifact mid st art c)
                 = Continue s' i' out evs"
        by (simp add: outsideActionStep_def)
      show ?thesis
      proof (cases "a < c")
        case True
        with r have "openAction mid ?P st art a = Continue s' i' out evs" by simp
        then have "openAction mid s st art a = Continue s' i' out evs" by (rule openAction_take)
        with True a' c' show ?thesis by (simp add: outsideActionStep_def)
      next
        case False
        with r a' c' show ?thesis by (simp add: outsideActionStep_def)
      qed
    next
      case None
      from ao None assms(1) have r: "openAction mid ?P st art a = Continue s' i' out evs"
        by (simp add: outsideActionStep_def)
      then have r': "openAction mid s st art a = Continue s' i' out evs" by (rule openAction_take)
      show ?thesis
      proof (cases "indexOf s ARTIFACT_TAG_CLOSE i")
        case n2: None
        with a' r' show ?thesis by (simp add: outsideActionStep_def)
      next
        case (Some c)
        from indexOf_bounds [OF Some] il have ic: "i \<le> c" by simp
        from occurrence_beyond [OF None indexOf_occurrence [OF Some] ic ne(2)]
        have far: "n < c + length ARTIFACT_TAG_CLOSE" .
        have "a < c"
        proof (rule ccontr)
          assume "\<not> a < c"
          then have le: "c \<le> a" by simp
          from an far have "a < c + 4"
            by (simp add: ARTIFACT_ACTION_TAG_OPEN_def ARTIFACT_TAG_CLOSE_def)
          from open_before_close [OF indexOf_occurrence [OF a'] indexOf_occurrence [OF Some] le this]
          show False .
        qed
        with a' Some r' show ?thesis by (simp add: outsideActionStep_def)
      qed
    qed
  qed
qed

lemma scanTag_take:
  "P = take n s \<Longrightarrow> scanTag P j q = r \<Longrightarrow> (\<exists>j'. r = Matched j' \<or> r = Mismatched j') \<Longrightarrow>
   scanTag s j q = r"
proof (induction P j q rule: scanTag.induct)
  case (1 input j potentialTag)
  show ?case
  proof (cases "j < length input \<and> length potentialTag < length ARTIFACT_TAG_OPEN")
    case False
    with "1.prems"(2,3) show ?thesis by (subst (asm) scanTag.simps) auto
  next
    case True
    with "1.prems"(1) have js: "j < length s" and nth: "input ! j = s ! j" by auto
    let ?p = "potentialTag @ [input ! j]"
    show ?thesis
    proof (cases "?p = ARTIFACT_TAG_OPEN \<or> \<not> prefix ?p ARTIFACT_TAG_OPEN")
      case stop: True
      have "scanTag input j potentialTag = scanTag s j potentialTag"
        using True js nth stop
        by (subst scanTag.simps, subst (2) scanTag.simps) (auto simp: Let_def)
      with "1.prems"(2) show ?thesis by simp
    next
      case go: False
      have a: "scanTag input j potentialTag = scanTag input (Suc j) ?p"
        using True go by (subst scanTag.simps) (simp add: Let_def)
      have b: "scanTag s j potentialTag = scanTag s (Suc j) ?p"
        using True js nth go by (subst scanTag.simps) (simp add: Let_def)
      have "scanTag s (Suc j) ?p = r"
        using "1.IH" [OF True refl _ _ "1.prems"(1) _ "1.prems"(3)] go a "1.prems"(2) by auto
      with b show ?thesis by simp
    qed
  qed
qed

lemma scanTag_matched_last:
  "scanTag input j q = Matched j' \<Longrightarrow> j' < length input \<and> input ! j' = CHR ''t''"
proof (induction input j q rule: scanTag.induct)
  case (1 input j potentialTag)
  show ?case
  proof (cases "j < length input \<and> length potentialTag < length ARTIFACT_TAG_OPEN")
    case False
    with "1.prems" show ?thesis by (subst (asm) scanTag.simps) auto
  next
    case True
    let ?p = "potentialTag @ [input ! j]"
    show ?thesis
    proof (cases "?p = ARTIFACT_TAG_OPEN")
      case eq: True
      with True "1.prems" have "j' = j" by (subst (asm) scanTag.simps) (simp add: Let_def)
      moreover from eq have "last ?p = last ARTIFACT_TAG_OPEN" by simp
      then have "input ! j = CHR ''t''" by (simp add: ARTIFACT_TAG_OPEN_def)
      ultimately show ?thesis using True by simp
    next
      case neq: False
      show ?thesis
      proof (cases "prefix ?p ARTIFACT_TAG_OPEN")
        case False
        with True neq "1.prems" show ?thesis by (subst (asm) scanTag.simps) (simp add: Let_def)
      next
        case pre: True
        with True neq "1.prems" have "scanTag input (Suc j) ?p = Matched j'"
          by (subst (asm) scanTag.simps) (simp add: Let_def)
        from "1.IH" [OF True refl neq _ this] pre show ?thesis by simp
      qed
    qed
  qed
qed

lemma openTagStep_take:
  assumes "openTagStep ae mid (take n s) st i = Continue s' i' out evs" and "i < length (take n s)"
  shows "openTagStep ae mid s st i = Continue s' i' out evs"
proof -
  let ?P = "take n s"
  have rng: "case scanTag ?P i [] of
      Matched j' \<Rightarrow> i \<le> j' \<and> j' < length ?P
    | Mismatched j' \<Rightarrow> i \<le> j' \<and> j' < length ?P
    | Exhausted j' p' \<Rightarrow> j' = length ?P \<and> prefix p' ARTIFACT_TAG_OPEN"
    using scanTag_range [of i ?P "[]"] assms(2) by (simp add: ARTIFACT_TAG_OPEN_def)
  show ?thesis
  proof (cases "scanTag ?P i []")
    case (Exhausted j p)
    with rng assms(1) show ?thesis by (auto simp: openTagStep_def)
  next
    case (Mismatched j)
    with rng have j: "j + 1 \<le> n" by simp
    have "scanTag s i [] = Mismatched j"
      using scanTag_take [OF refl Mismatched] by simp
    moreover have "slice ?P i (j + 1) = slice s i (j + 1)" using j by (rule slice_take)
    ultimately show ?thesis using Mismatched assms(1) by (auto simp: openTagStep_def)
  next
    case (Matched j)
    with rng have j: "j + 1 \<le> n" "j < length ?P" by simp_all
    have m: "scanTag s i [] = Matched j"
      using scanTag_take [OF refl Matched] by simp
    from scanTag_matched_last [OF Matched] have t: "?P ! j = CHR ''t''" by simp
    have sl: "slice ?P i (j + 1) = slice s i (j + 1)" using j(1) by (rule slice_take)
    show ?thesis
    proof (cases "charAt ?P (j + 1)")
      case (Some c)
      then have c: "charAt s (j + 1) = Some c" by (rule charAt_take)
      show ?thesis
      proof (cases "c \<noteq> CHR ''>'' \<and> c \<noteq> CHR '' ''")
        case True
        with Matched m Some c assms(1) sl show ?thesis
          by (auto simp: openTagStep_def)
      next
        case False
        from False Matched Some assms(1) obtain e where e: "indexOf ?P ''>'' j = Some e"
          by (auto simp: openTagStep_def split: option.splits)
        have e': "indexOf s ''>'' j = Some e" using e by (rule indexOf_take) simp
        from indexOf_bounds [OF e] have "e + 1 \<le> n" by simp
        then have "slice ?P i (e + 1) = slice s i (e + 1)" by (rule slice_take)
        with False Matched m Some c e e' assms(1) show ?thesis
          by (auto simp: openTagStep_def Let_def)
      qed
    next
      case None
      then have "\<not> j + 1 < length ?P" by (simp add: charAt_def split: if_splits)
      with j(2) have jl: "j + 1 = length ?P" by linarith
      from None Matched assms(1) obtain e where e: "indexOf ?P ''>'' j = Some e"
        by (auto simp: openTagStep_def split: option.splits)
      have "length ''>'' = 1" by simp
      with indexOf_bounds [OF e] have "min j (length ?P) \<le> e \<and> e + 1 \<le> length ?P"
        by (simp only:)
      with jl j(2) have "e = j" by (simp only: min_def split: if_splits) linarith+
      with indexOf_occurrence [OF e] have "prefix ''>'' (drop j ?P)" by simp
      moreover have "drop j ?P = ?P ! j # drop (Suc j) ?P"
        using j(2) by (rule Cons_nth_drop_Suc [symmetric])
      ultimately have "?P ! j = CHR ''>''" by (simp only: prefix_code list.inject)
      with t show ?thesis by simp
    qed
  qed
qed

lemma openTagStep_needs_two:
  assumes "openTagStep ae mid input st i = Continue s' i' out evs"
    and "charAt input i = Some CHR ''<''"
  shows "i + 1 < length input"
proof (rule ccontr)
  assume "\<not> i + 1 < length input"
  moreover from assms(2) have il: "i < length input" and c: "input ! i = CHR ''<''"
    by (auto simp: charAt_def split: if_splits)
  ultimately have e: "i + 1 = length input" by simp
  have "scanTag input i [] = scanTag input (Suc i) ''<''"
    using il c by (subst scanTag.simps) (simp add: Let_def ARTIFACT_TAG_OPEN_def)
  moreover have "case scanTag input (Suc i) ''<'' of
      Matched j' \<Rightarrow> Suc i \<le> j' \<and> j' < length input
    | Mismatched j' \<Rightarrow> Suc i \<le> j' \<and> j' < length input
    | Exhausted j' p' \<Rightarrow> j' = length input \<and> prefix p' ARTIFACT_TAG_OPEN"
    using scanTag_range [of "Suc i" input "''<''"] e by (simp add: ARTIFACT_TAG_OPEN_def)
  ultimately show False
    using assms(1) e by (auto simp: openTagStep_def split: scan.splits)
qed

lemma parse_step_take:
  assumes step: "parse_step ae mid (take n s) st i = Continue s' i' out evs"
    and il: "i < length (take n s)"
    and noq: "\<forall>k. \<not> startsWith s BOLT_QUICK_ACTIONS_OPEN k"
  shows "parse_step ae mid s st i = Continue s' i' out evs"
proof -
  let ?P = "take n s"
  have qs: "quickActionsBlock s i = None" using noq by (simp add: quickActionsBlock_absent)
  have "\<not> startsWith ?P BOLT_QUICK_ACTIONS_OPEN i" using noq startsWith_take by blast
  then have qp: "quickActionsBlock ?P i = None" by (rule quickActionsBlock_absent)
  have c0: "charAt ?P i = charAt s i" using il by (simp add: charAt_take_eq)
  show ?thesis
  proof (cases "insideArtifact st")
    case True
    show ?thesis
    proof (cases "currentArtifact st")
      case None
      with step qp True show ?thesis by (simp add: parse_step_def)
    next
      case (Some art)
      show ?thesis
      proof (cases "insideAction st")
        case ia: True
        with step qp True Some have "insideActionStep mid ?P st art i = Continue s' i' out evs"
          by (simp add: parse_step_def)
        then have "insideActionStep mid s st art i = Continue s' i' out evs"
          by (rule insideActionStep_take)
        with qs True Some ia show ?thesis by (simp add: parse_step_def)
      next
        case ia: False
        with step qp True Some have "outsideActionStep mid ?P st art i = Continue s' i' out evs"
          by (simp add: parse_step_def)
        then have "outsideActionStep mid s st art i = Continue s' i' out evs"
          using il by (rule outsideActionStep_take)
        with qs True Some ia show ?thesis by (simp add: parse_step_def)
      qed
    qed
  next
    case False
    show ?thesis
    proof (cases "charAt ?P i = Some CHR ''<'' \<and> charAt ?P (i + 1) \<noteq> Some CHR ''/''")
      case True
      with step qp False have t: "openTagStep ae mid ?P st i = Continue s' i' out evs"
        by (simp add: parse_step_def)
      from openTagStep_needs_two [OF t] True have "i + 1 < length ?P" by simp
      then have "charAt ?P (i + 1) = charAt s (i + 1)" by (simp add: charAt_take_eq)
      with True c0 have cs: "charAt s i = Some CHR ''<'' \<and> charAt s (i + 1) \<noteq> Some CHR ''/''"
        by simp
      from t il have "openTagStep ae mid s st i = Continue s' i' out evs"
        by (rule openTagStep_take)
      with qs False cs show ?thesis by (simp add: parse_step_def)
    next
      case c: False
      then have "\<not> (charAt s i = Some CHR ''<'' \<and> charAt s (i + 1) \<noteq> Some CHR ''/'')"
        using c0 charAt_take [of n s "i + 1" "CHR ''/''"] by auto
      then have "parse_step ae mid s st i =
          Continue st (i + 1) (case charAt s i of Some c \<Rightarrow> [c] | None \<Rightarrow> ''undefined'') []"
        using qs False by (auto simp: parse_step_def)
      moreover have "parse_step ae mid ?P st i =
          Continue st (i + 1) (case charAt ?P i of Some c \<Rightarrow> [c] | None \<Rightarrow> ''undefined'') []"
        using qp False c by (auto simp: parse_step_def)
      ultimately show ?thesis using step c0 by simp
    qed
  qed
qed

text \<open>The results of the loop apart from the callbacks.\<close>

definition result_of ::
  "MessageState \<times> nat \<times> callback list \<times> (error + string) \<Rightarrow> MessageState \<times> nat \<times> (error + string)" where
  "result_of x = (case x of (st, i, fired, r) \<Rightarrow> (st, i, r))"

lemma parse_loop_fired:
  "parse_loop ae mid input st i out f =
     (case parse_loop ae mid input st i out [] of (s', i', f', r) \<Rightarrow> (s', i', f @ f', r))"
proof (induction "length input - i" arbitrary: st i out f rule: less_induct)
  case less
  show ?case
  proof (cases "i < length input")
    case False
    then show ?thesis by (simp add: parse_loop.simps [of ae mid input st i])
  next
    case True
    show ?thesis
    proof (cases "parse_step ae mid input st i")
      case (Continue s2 i2 o2 e2)
      from parse_step_advances [OF Continue True] True
      have m: "length input - i2 < length input - i" by auto
      have a: "parse_loop ae mid input st i out f = parse_loop ae mid input s2 i2 (out @ o2) (f @ e2)"
        using True Continue by (simp add: parse_loop.simps [of ae mid input st i])
      have b: "parse_loop ae mid input st i out [] = parse_loop ae mid input s2 i2 (out @ o2) e2"
        using True Continue by (simp add: parse_loop.simps [of ae mid input st i])
      obtain s3 i3 f3 r3 where c: "parse_loop ae mid input s2 i2 (out @ o2) [] = (s3, i3, f3, r3)"
        by (cases "parse_loop ae mid input s2 i2 (out @ o2) []") auto
      have "parse_loop ae mid input s2 i2 (out @ o2) (f @ e2) = (s3, i3, (f @ e2) @ f3, r3)"
        using less [OF m, of s2 "out @ o2" "f @ e2"] c by simp
      moreover have "parse_loop ae mid input s2 i2 (out @ o2) e2 = (s3, i3, e2 @ f3, r3)"
        using less [OF m, of s2 "out @ o2" e2] c by simp
      ultimately show ?thesis using a b by simp
    next
      case (Break e2)
      with True show ?thesis by (simp add: parse_loop.simps [of ae mid input st i])
    next
      case (Throw s2 e)
      with True show ?thesis by (simp add: parse_loop.simps [of ae mid input st i])
    qed
  qed
qed

lemma parse_loop_output:
  "parse_loop ae mid input st i out f =
     (case parse_loop ae mid input st i [] f of (s', i', f', r) \<Rightarrow> (s', i', f', map_sum id ((@) out) r))"
proof (induction "length input - i" arbitrary: st i out f rule: less_induct)
  case less
  show ?case
  proof (cases "i < length input")
    case False
    then show ?thesis by (simp add: parse_loop.simps [of ae mid input st i])
  next
    case True
    show ?thesis
    proof (cases "parse_step ae mid input st i")
      case (Continue s2 i2 o2 e2)
      from parse_step_advances [OF Continue True] True
      have m: "length input - i2 < length input - i" by auto
      have a: "parse_loop ae mid input st i out f = parse_loop ae mid input s2 i2 (out @ o2) (f @ e2)"
        using True Continue by (simp add: parse_loop.simps [of ae mid input st i])
      have b: "parse_loop ae mid input st i [] f = parse_loop ae mid input s2 i2 o2 (f @ e2)"
        using True Continue by (simp add: parse_loop.simps [of ae mid input st i])
      obtain s3 i3 f3 r3 where c: "parse_loop ae mid input s2 i2 [] (f @ e2) = (s3, i3, f3, r3)"
        by (cases "parse_loop ae mid input s2 i2 [] (f @ e2)") auto
      have "parse_loop ae mid input s2 i2 (out @ o2) (f @ e2) = (s3, i3, f3, map_sum id ((@) (out @ o2)) r3)"
        using less [OF m, of s2 "out @ o2" "f @ e2"] c by simp
      moreover have "parse_loop ae mid input s2 i2 o2 (f @ e2) = (s3, i3, f3, map_sum id ((@) o2) r3)"
        using less [OF m, of s2 o2 "f @ e2"] c by simp
      ultimately show ?thesis using a b by (cases r3) simp_all
    next
      case (Break e2)
      with True show ?thesis by (simp add: parse_loop.simps [of ae mid input st i])
    next
      case (Throw s2 e)
      with True show ?thesis by (simp add: parse_loop.simps [of ae mid input st i])
    qed
  qed
qed

lemma result_of_fired:
  "result_of (parse_loop ae mid input st i out f) = result_of (parse_loop ae mid input st i out g)"
  by (subst parse_loop_fired, subst (2) parse_loop_fired) (simp add: result_of_def split: prod.splits)

lemma parse_loop_resume:
  assumes noq: "\<forall>k. \<not> startsWith s BOLT_QUICK_ACTIONS_OPEN k" and P: "P = take n s"
  shows "parse_loop ae mid P st i out f = (s1, i1, f1, Inr o1) \<Longrightarrow>
         result_of (parse_loop ae mid s st i out g) = result_of (parse_loop ae mid s s1 i1 o1 g)"
proof (induction "length P - i" arbitrary: st i out f g rule: less_induct)
  case less
  show ?case
  proof (cases "i < length P")
    case False
    with less.prems show ?thesis by (simp add: parse_loop.simps [of ae mid P st i])
  next
    case True
    then have ils: "i < length s" using P by simp
    show ?thesis
    proof (cases "parse_step ae mid P st i")
      case (Continue s2 i2 o2 e2)
      from parse_step_advances [OF Continue True] True
      have m: "length P - i2 < length P - i" by auto
      have a: "parse_loop ae mid P s2 i2 (out @ o2) (f @ e2) = (s1, i1, f1, Inr o1)"
        using True Continue less.prems by (simp add: parse_loop.simps [of ae mid P st i])
      have "parse_step ae mid s st i = Continue s2 i2 o2 e2"
        using Continue True noq unfolding P by (rule parse_step_take)
      then have "parse_loop ae mid s st i out g = parse_loop ae mid s s2 i2 (out @ o2) (g @ e2)"
        using ils by (simp add: parse_loop.simps [of ae mid s st i])
      then have "result_of (parse_loop ae mid s st i out g)
                 = result_of (parse_loop ae mid s s2 i2 (out @ o2) (g @ e2))" by simp
      also have "\<dots> = result_of (parse_loop ae mid s s1 i1 o1 (g @ e2))"
        by (rule less.hyps [OF m a])
      also have "\<dots> = result_of (parse_loop ae mid s s1 i1 o1 g)" by (rule result_of_fired)
      finally show ?thesis .
    next
      case (Break e2)
      with True less.prems show ?thesis by (simp add: parse_loop.simps [of ae mid P st i])
    next
      case (Throw s2 e)
      with True less.prems show ?thesis by (simp add: parse_loop.simps [of ae mid P st i])
    qed
  qed
qed

text \<open>The loop never reads the stored position: setting it commutes with an iteration.\<close>

definition with_position :: "nat \<Rightarrow> step \<Rightarrow> step" where
  "with_position x r =
     (case r of
        Continue st i out evs \<Rightarrow> Continue (st\<lparr>position := x\<rparr>) i out evs
      | Break evs \<Rightarrow> Break evs
      | Throw st e \<Rightarrow> Throw (st\<lparr>position := x\<rparr>) e)"

lemma insideActionStep_with_position:
  "insideActionStep mid input (st\<lparr>position := x\<rparr>) art i
     = with_position x (insideActionStep mid input st art i)"
  by (simp add: insideActionStep_def with_position_def Let_def split: option.splits)

lemma outsideActionStep_with_position:
  "outsideActionStep mid input (st\<lparr>position := x\<rparr>) art i
     = with_position x (outsideActionStep mid input st art i)"
  by (simp add: outsideActionStep_def openAction_def closeArtifact_def with_position_def
      split: option.splits sum.splits)

lemma openTagStep_with_position:
  "openTagStep ae mid input (st\<lparr>position := x\<rparr>) i
     = with_position x (openTagStep ae mid input st i)"
  by (simp add: openTagStep_def with_position_def Let_def split: option.splits scan.splits)

lemma parse_step_with_position:
  "parse_step ae mid input (st\<lparr>position := x\<rparr>) i
     = with_position x (parse_step ae mid input st i)"
proof (cases "quickActionsBlock input i")
  case (Some m)
  then show ?thesis by (cases m) (simp add: parse_step_def with_position_def)
next
  case None
  show ?thesis
  proof (cases "insideArtifact st")
    case True
    with None show ?thesis
      by (cases "currentArtifact st")
        (simp_all add: parse_step_def insideActionStep_with_position
          outsideActionStep_with_position with_position_def)
  next
    case False
    with None show ?thesis
      by (cases "charAt input i = Some CHR ''<'' \<and> charAt input (i + 1) \<noteq> Some CHR ''/''")
        (auto simp: parse_step_def openTagStep_with_position with_position_def)
  qed
qed

lemma parse_loop_with_position:
  "parse_loop ae mid input (st\<lparr>position := x\<rparr>) i out f =
     (case parse_loop ae mid input st i out f of (s', i', f', r) \<Rightarrow> (s'\<lparr>position := x\<rparr>, i', f', r))"
proof (induction "length input - i" arbitrary: st i out f rule: less_induct)
  case less
  show ?case
  proof (cases "i < length input")
    case False
    then show ?thesis
      by (simp add: parse_loop.simps [of ae mid input st i]
          parse_loop.simps [of ae mid input "st\<lparr>position := x\<rparr>" i])
  next
    case True
    show ?thesis
    proof (cases "parse_step ae mid input st i")
      case (Continue s2 i2 o2 e2)
      from parse_step_advances [OF Continue True] True
      have m: "length input - i2 < length input - i" by auto
      have "parse_step ae mid input (st\<lparr>position := x\<rparr>) i = Continue (s2\<lparr>position := x\<rparr>) i2 o2 e2"
        using Continue by (simp add: parse_step_with_position with_position_def)
      then have "parse_loop ae mid input (st\<lparr>position := x\<rparr>) i out f
                 = parse_loop ae mid input (s2\<lparr>position := x\<rparr>) i2 (out @ o2) (f @ e2)"
        using True by (simp add: parse_loop.simps [of ae mid input "st\<lparr>position := x\<rparr>" i])
      moreover have "parse_loop ae mid input st i out f = parse_loop ae mid input s2 i2 (out @ o2) (f @ e2)"
        using True Continue by (simp add: parse_loop.simps [of ae mid input st i])
      ultimately show ?thesis using less [OF m, of s2 "out @ o2" "f @ e2"] by simp
    next
      case (Break e2)
      then have "parse_step ae mid input (st\<lparr>position := x\<rparr>) i = Break e2"
        by (simp add: parse_step_with_position with_position_def)
      with True Break show ?thesis
        by (simp add: parse_loop.simps [of ae mid input st i]
            parse_loop.simps [of ae mid input "st\<lparr>position := x\<rparr>" i])
    next
      case (Throw s2 e)
      then have "parse_step ae mid input (st\<lparr>position := x\<rparr>) i = Throw (s2\<lparr>position := x\<rparr>) e"
        by (simp add: parse_step_with_position with_position_def)
      with True Throw show ?thesis
        by (simp add: parse_loop.simps [of ae mid input st i]
            parse_loop.simps [of ae mid input "st\<lparr>position := x\<rparr>" i])
    qed
  qed
qed

lemma no_occurrence:
  assumes "indexOf s pat 0 = None" and "pat \<noteq> []"
  shows "\<not> startsWith s pat k"
proof
  assume "startsWith s pat k"
  then have p: "prefix pat (drop k s)" by (simp add: startsWith_def)
  with assms(2) have "drop k s \<noteq> []" by auto
  then have "k \<le> length s" by simp
  have "indexOf s pat 0 \<noteq> None" using p _ \<open>k \<le> length s\<close> by (rule indexOf_found) simp
  with assms(1) show False by simp
qed

text \<open>
  The defect behind claims C1 and C2 is confined to the quick-actions branch. For a text
  \<open>T\<close> in which the quick-actions open marker does not occur, any state of the message and
  any split point \<open>n\<close>: if the call on the first \<open>n\<close> characters returns the output \<open>o1\<close>,
  then the call on \<open>T\<close> from the state it leaves returns \<open>o2\<close> exactly when a single call on
  \<open>T\<close> from the original state returns \<open>o1 @ o2\<close>, both leave the same state, and one throws
  exactly when the other does, with the same exception.
\<close>

theorem resumption_without_quick_actions:
  assumes "indexOf T BOLT_QUICK_ACTIONS_OPEN 0 = None"
    and "parse_state ae mid st (take n T) = (s1, f1, Inr o1)"
  shows "snd (snd (parse_state ae mid st T))
           = map_sum id ((@) o1) (snd (snd (parse_state ae mid s1 T)))
         \<and> (\<not> isl (snd (snd (parse_state ae mid s1 T)))
              \<longrightarrow> fst (parse_state ae mid st T) = fst (parse_state ae mid s1 T))"
proof -
  have noq: "\<forall>k. \<not> startsWith T BOLT_QUICK_ACTIONS_OPEN k"
    using no_occurrence [OF assms(1)] by (simp add: BOLT_QUICK_ACTIONS_OPEN_def)
  obtain s1' i1 where l1: "parse_loop ae mid (take n T) st (position st) [] [] = (s1', i1, f1, Inr o1)"
    and s1: "s1 = s1'\<lparr>position := i1\<rparr>"
    using assms(2) by (auto simp: parse_state_def split: prod.splits sum.splits)
  obtain s2 i2 f2 r2 where l2: "parse_loop ae mid T s1' i1 [] [] = (s2, i2, f2, r2)"
    by (cases "parse_loop ae mid T s1' i1 [] []") auto
  have second: "parse_loop ae mid T s1 (position s1) [] [] = (s2\<lparr>position := i1\<rparr>, i2, f2, r2)"
    using l2 s1 by (simp add: parse_loop_with_position)
  have "parse_loop ae mid T s1' i1 o1 [] = (s2, i2, f2, map_sum id ((@) o1) r2)"
    using l2 by (subst parse_loop_output) simp
  then have "result_of (parse_loop ae mid T st (position st) [] []) = (s2, i2, map_sum id ((@) o1) r2)"
    using parse_loop_resume [OF noq refl l1, of "[]"] by (simp add: result_of_def)
  then obtain f where single: "parse_loop ae mid T st (position st) [] [] = (s2, i2, f, map_sum id ((@) o1) r2)"
    by (auto simp: result_of_def split: prod.splits)
  show ?thesis
    using single second by (cases r2) (simp_all add: parse_state_def)
qed

theorem resumption_without_quick_actions_example:
  "snd (snd (parse_state None ''m'' newState
      ''<boltArtifact id=\"a1\" title=\"T\" type=\"bundled\"><boltAction type=\"shell\">echo hi</boltAction></boltArtifact>''))
   = map_sum id ((@) ''<div class=\"__boltArtifact__\" data-message-id=\"m\"></div>'')
       (snd (snd (parse_state None ''m''
          (fst (parse_state None ''m'' newState
             (take 75 ''<boltArtifact id=\"a1\" title=\"T\" type=\"bundled\"><boltAction type=\"shell\">echo hi</boltAction></boltArtifact>'')))
          ''<boltArtifact id=\"a1\" title=\"T\" type=\"bundled\"><boltAction type=\"shell\">echo hi</boltAction></boltArtifact>'')))"
proof -
  let ?T = "''<boltArtifact id=\"a1\" title=\"T\" type=\"bundled\"><boltAction type=\"shell\">echo hi</boltAction></boltArtifact>''"
  have h1: "indexOf ?T BOLT_QUICK_ACTIONS_OPEN 0 = None" by code_simp
  have h2: "parse_state None ''m'' newState (take 75 ?T)
        = (fst (parse_state None ''m'' newState (take 75 ?T)),
           fst (snd (parse_state None ''m'' newState (take 75 ?T))),
           Inr ''<div class=\"__boltArtifact__\" data-message-id=\"m\"></div>'')"
  proof -
    have "snd (snd (parse_state None ''m'' newState (take 75 ?T)))
          = Inr ''<div class=\"__boltArtifact__\" data-message-id=\"m\"></div>''"
      by code_simp
    then show ?thesis by (metis prod.collapse)
  qed
  from resumption_without_quick_actions [OF h1 h2] show ?thesis by blast
qed

end
